theory Spec2Isabelle
  imports Complex_Main "HOL-Library.Multiset"
begin

section \<open>Data model of the OCR annotation tree (app.ts)\<close>

text \<open>
  A JavaScript string is a list of characters; a \<^typ>\<open>char\<close> stands for the code unit
  of the same number, so the white space of \<^verbatim>\<open>\s\<close> and of \<^verbatim>\<open>trim()\<close> that the
  model sees is tab, line feed, vertical tab, form feed, carriage return, space and the
  no-break space 0xA0. Vertex coordinates and image sizes are integers, as the OCR
  service and the canvas deliver them.

  A field read through \<^verbatim>\<open>??\<close> or \<^verbatim>\<open>?.\<close> is an option: \<open>None\<close> is the missing
  (undefined or null) field.
\<close>

datatype break_code = Unset | Named string | Numeric int

record Symbol =
  sym_text :: "string option"
  sym_break :: break_code

record Word =
  word_symbols :: "Symbol list option"

record Vertex =
  vx :: "int option"
  vy :: "int option"

record Paragraph =
  para_words :: "Word list option"
  para_vertices :: "Vertex option list option"

record Block =
  block_paragraphs :: "Paragraph list option"

record Page =
  page_blocks :: "Block list option"

record Pt =
  px :: int
  py :: int

record Region =
  rtext :: string
  box :: "Pt list"

record DrawRegion = Region +
  translated :: string

section \<open>String primitives of the runtime\<close>

definition nl :: char where
  "nl = CHR 0x0A"

definition tab :: char where
  "tab = CHR 0x09"

definition is_ws :: "char \<Rightarrow> bool" where
  "is_ws c = (c = CHR '' '' \<or> c = CHR 0x09 \<or> c = CHR 0x0A \<or> c = CHR 0x0B
      \<or> c = CHR 0x0C \<or> c = CHR 0x0D \<or> c = CHR 0xA0)"

definition is_hspace :: "char \<Rightarrow> bool" where
  "is_hspace c = (c = CHR '' '' \<or> c = tab)"

text \<open>\<^verbatim>\<open>String.prototype.trim\<close>: white space is removed at both ends.\<close>

definition trim :: "string \<Rightarrow> string" where
  "trim s = rev (dropWhile is_ws (rev (dropWhile is_ws s)))"

text \<open>
  One attempt of the regular expression \<^verbatim>\<open>/[ \t]+\n/\<close> at the head of a string: the
  greedy class takes every leading space and tab, at least one, and a line feed must
  follow. The result is what is left after the match.
\<close>

definition matchHspaceNl :: "string \<Rightarrow> string option" where
  "matchHspaceNl s =
     (case s of
        [] \<Rightarrow> None
      | c # cs \<Rightarrow>
          if is_hspace c then
            (case dropWhile is_hspace cs of
               [] \<Rightarrow> None
             | d # ds \<Rightarrow> if d = nl then Some ds else None)
          else None)"

text \<open>
  \<^verbatim>\<open>out.replace(/[ \t]+\n/g, '\n')\<close>: scanning from the left, a match is replaced by
  one line feed and the scan goes on behind it; where nothing matches the character is
  copied.
\<close>

function replaceHspaceNl :: "string \<Rightarrow> string" where
  "replaceHspaceNl [] = []"
| "replaceHspaceNl (c # cs) =
     (case matchHspaceNl (c # cs) of
        Some rest \<Rightarrow> nl # replaceHspaceNl rest
      | None \<Rightarrow> c # replaceHspaceNl cs)"
  by pat_completeness auto
termination
proof (relation "measure length")
  show "wf (measure length)" by (rule wf_measure)
next
  fix c :: char and cs rest :: string
  assume m: "matchHspaceNl (c # cs) = Some rest"
  then obtain d where d: "dropWhile is_hspace cs = d # rest"
    by (auto simp: matchHspaceNl_def split: if_splits list.splits)
  have "length (dropWhile is_hspace cs) \<le> length cs"
    by (rule length_dropWhile_le)
  with d show "(rest, c # cs) \<in> measure length" by simp
next
  fix c :: char and cs :: string
  show "(cs, c # cs) \<in> measure length" by simp
qed

section \<open>Paragraph text reconstruction (getParagraphText)\<close>

text \<open>
  The three conditionals that follow \<^verbatim>\<open>out += s.text ?? ''\<close>, in the order of the
  source; each tests the break type against one symbolic name and one number.
\<close>

definition appendBreak :: "break_code \<Rightarrow> string \<Rightarrow> string" where
  "appendBreak br out =
     (let out1 = (if br = Named ''SPACE'' \<or> br = Numeric 1 then out @ '' '' else out);
          out2 = (if br = Named ''EOL_SURE_SPACE'' \<or> br = Numeric 3 then out1 @ '' '' else out1);
          out3 = (if br = Named ''LINE_BREAK'' \<or> br = Numeric 5 then out2 @ [nl] else out2)
      in out3)"

definition rawText :: "Symbol \<Rightarrow> string" where
  "rawText s = (case sym_text s of None \<Rightarrow> [] | Some t \<Rightarrow> t)"

definition appendSymbol :: "Symbol \<Rightarrow> string \<Rightarrow> string" where
  "appendSymbol s out = appendBreak (sym_break s) (out @ rawText s)"

definition symbolsOf :: "Word \<Rightarrow> Symbol list" where
  "symbolsOf w = (case word_symbols w of None \<Rightarrow> [] | Some ss \<Rightarrow> ss)"

definition wordsOf :: "Paragraph \<Rightarrow> Word list" where
  "wordsOf pg = (case para_words pg of None \<Rightarrow> [] | Some ws \<Rightarrow> ws)"

definition paragraphRaw :: "Paragraph \<Rightarrow> string" where
  "paragraphRaw pg = fold (\<lambda>w out. fold appendSymbol (symbolsOf w) out) (wordsOf pg) []"

definition getParagraphText :: "Paragraph \<Rightarrow> string" where
  "getParagraphText pg = trim (replaceHspaceNl (paragraphRaw pg))"

subsection \<open>The break table of the specification\<close>

datatype BreakAction = NONE | SPACE | NEWLINE

text \<open>
  The mapping table of the specification, row by row: the symbolic and the numeric form
  of each code, and NONE for everything else.
\<close>

definition resolve_table :: "break_code \<Rightarrow> BreakAction" where
  "resolve_table br =
     (if br = Named ''SPACE'' \<or> br = Numeric 1 then SPACE
      else if br = Named ''SURE_SPACE'' \<or> br = Numeric 2 then SPACE
      else if br = Named ''EOL_SURE_SPACE'' \<or> br = Numeric 3 then SPACE
      else if br = Named ''HYPHEN'' \<or> br = Numeric 4 then NONE
      else if br = Named ''LINE_BREAK'' \<or> br = Numeric 5 then NEWLINE
      else NONE)"

fun separator :: "BreakAction \<Rightarrow> string" where
  "separator NONE = []"
| "separator SPACE = '' ''"
| "separator NEWLINE = [nl]"

subsection \<open>The reconstruction as the specification words it\<close>

definition before_nl :: "string \<Rightarrow> bool" where
  "before_nl s = (case dropWhile is_hspace s of [] \<Rightarrow> False | d # ds \<Rightarrow> d = nl)"

text \<open>
  Deleting every run of horizontal white space that immediately precedes a line feed: a
  space or tab goes exactly when only spaces and tabs lie between it and the next line
  feed.
\<close>

fun dropHspaceBeforeNl :: "string \<Rightarrow> string" where
  "dropHspaceBeforeNl [] = []"
| "dropHspaceBeforeNl (c # cs) =
     (if is_hspace c \<and> before_nl cs then dropHspaceBeforeNl cs
      else c # dropHspaceBeforeNl cs)"

definition symbolsInTreeOrder :: "Paragraph \<Rightarrow> Symbol list" where
  "symbolsInTreeOrder pg = concat (map symbolsOf (wordsOf pg))"

definition reconstruct_spec :: "Paragraph \<Rightarrow> string" where
  "reconstruct_spec pg =
     trim (dropHspaceBeforeNl
       (concat (map (\<lambda>s. rawText s @ separator (resolve_table (sym_break s)))
          (symbolsInTreeOrder pg))))"

definition mkSymbol :: "string \<Rightarrow> break_code \<Rightarrow> Symbol" where
  "mkSymbol t br = \<lparr>sym_text = Some t, sym_break = br\<rparr>"

definition mkWord :: "Symbol list \<Rightarrow> Word" where
  "mkWord ss = \<lparr>word_symbols = Some ss\<rparr>"

definition mkParagraph :: "Word list \<Rightarrow> Vertex option list \<Rightarrow> Paragraph" where
  "mkParagraph ws vs = \<lparr>para_words = Some ws, para_vertices = Some vs\<rparr>"

section \<open>Region extraction (the loop over pages, blocks and paragraphs)\<close>

definition pagesOf :: "Page list option \<Rightarrow> Page list" where
  "pagesOf anno = (case anno of None \<Rightarrow> [] | Some ps \<Rightarrow> ps)"

definition blocksOf :: "Page \<Rightarrow> Block list" where
  "blocksOf p = (case page_blocks p of None \<Rightarrow> [] | Some bs \<Rightarrow> bs)"

definition paragraphsOf :: "Block \<Rightarrow> Paragraph list" where
  "paragraphsOf b = (case block_paragraphs b of None \<Rightarrow> [] | Some pgs \<Rightarrow> pgs)"

definition verticesOf :: "Paragraph \<Rightarrow> Vertex option list" where
  "verticesOf pg = (case para_vertices pg of None \<Rightarrow> [] | Some vs \<Rightarrow> vs)"

text \<open>\<^verbatim>\<open>({ x: v?.x ?? 0, y: v?.y ?? 0 })\<close>\<close>

definition toPt :: "Vertex option \<Rightarrow> Pt" where
  "toPt v =
     \<lparr>px = (case v of None \<Rightarrow> 0 | Some u \<Rightarrow> (case vx u of None \<Rightarrow> 0 | Some a \<Rightarrow> a)),
      py = (case v of None \<Rightarrow> 0 | Some u \<Rightarrow> (case vy u of None \<Rightarrow> 0 | Some a \<Rightarrow> a))\<rparr>"

definition boxOf :: "Paragraph \<Rightarrow> Pt list" where
  "boxOf pg = map toPt (verticesOf pg)"

text \<open>The body of the innermost loop; a non-empty string is the truthy \<^verbatim>\<open>text\<close>.\<close>

definition pushParagraph :: "Paragraph \<Rightarrow> Region list \<Rightarrow> Region list" where
  "pushParagraph pg regions =
     (let t = getParagraphText pg; b = boxOf pg
      in if t \<noteq> [] \<and> 4 \<le> length b then regions @ [\<lparr>rtext = t, box = b\<rparr>] else regions)"

definition buildRegions :: "Page list option \<Rightarrow> Region list" where
  "buildRegions anno =
     fold (\<lambda>p rs. fold (\<lambda>b rs. fold pushParagraph (paragraphsOf b) rs) (blocksOf p) rs)
       (pagesOf anno) []"

definition paragraphsInTreeOrder :: "Page list option \<Rightarrow> Paragraph list" where
  "paragraphsInTreeOrder anno =
     concat (map (\<lambda>p. concat (map paragraphsOf (blocksOf p))) (pagesOf anno))"

definition coord_or_zero :: "int option \<Rightarrow> int" where
  "coord_or_zero c = (case c of None \<Rightarrow> 0 | Some a \<Rightarrow> a)"

definition mkBlock :: "Paragraph list \<Rightarrow> Block" where
  "mkBlock pgs = \<lparr>block_paragraphs = Some pgs\<rparr>"

definition mkPage :: "Block list \<Rightarrow> Page" where
  "mkPage bs = \<lparr>page_blocks = Some bs\<rparr>"

definition mkVertex :: "int option \<Rightarrow> int option \<Rightarrow> Vertex option" where
  "mkVertex a b = Some \<lparr>vx = a, vy = b\<rparr>"

definition pt :: "int \<Rightarrow> int \<Rightarrow> Pt" where
  "pt a b = \<lparr>px = a, py = b\<rparr>"

text \<open>A tree of one block with three paragraphs, two of them to be discarded.\<close>

definition sample_tree :: "Page list option" where
  "sample_tree = Some [mkPage [mkBlock
      [mkParagraph [mkWord [mkSymbol ''a'' Unset]]
         [mkVertex (Some 1) None, None, mkVertex None (Some 2), mkVertex (Some 3) (Some 4)],
       mkParagraph [mkWord [mkSymbol '' '' Unset]]
         [mkVertex (Some 1) None, None, mkVertex None (Some 2), mkVertex (Some 3) (Some 4)],
       mkParagraph [mkWord [mkSymbol ''b'' Unset]]
         [mkVertex (Some 1) None, None, mkVertex None (Some 2)]]]]"

section \<open>Rectangle of a region (overlay.ts)\<close>

text \<open>
  \<^verbatim>\<open>Math.min(...xs)\<close> and \<^verbatim>\<open>Math.max(...xs)\<close> over a non-empty list of integers. For
  the empty list the runtime gives an infinity, which is no integer: the model leaves
  that case open, and the results below are stated for regions with a vertex (every
  region that is built has four or more). The points of a region carry their defaults
  already, so \<^verbatim>\<open>p?.x ?? 0\<close> and \<^verbatim>\<open>p.y ?? 0\<close> read the coordinate.
\<close>

fun Math_min :: "int list \<Rightarrow> int" where
  "Math_min (v # vs) = fold min vs v"

fun Math_max :: "int list \<Rightarrow> int" where
  "Math_max (v # vs) = fold max vs v"

record Rect =
  rx :: int
  ry :: int
  rw :: int
  rh :: int

definition rectOf :: "int \<Rightarrow> int \<Rightarrow> Pt list \<Rightarrow> Rect" where
  "rectOf imgW imgH bx =
     (let xs = map px bx;
          ys = map py bx;
          x = max 0 (Math_min xs);
          y = max 0 (Math_min ys);
          w = max 1 (min imgW (Math_max xs) - x);
          h = max 1 (min imgH (Math_max ys) - y)
      in \<lparr>rx = x, ry = y, rw = w, rh = h\<rparr>)"

subsection \<open>The rectangle as the specification words it\<close>

definition clamp :: "int \<Rightarrow> int \<Rightarrow> int \<Rightarrow> int" where
  "clamp v lo hi = (if v < lo then lo else if hi < v then hi else v)"

definition rect_spec :: "int \<Rightarrow> int \<Rightarrow> Pt list \<Rightarrow> Rect" where
  "rect_spec imgW imgH bx =
     (let x = clamp (Min (set (map px bx))) 0 imgW;
          y = clamp (Min (set (map py bx))) 0 imgH
      in \<lparr>rx = x, ry = y,
          rw = max 1 (clamp (Max (set (map px bx))) 0 imgW - x),
          rh = max 1 (clamp (Max (set (map py bx))) 0 imgH - y)\<rparr>)"

section \<open>Reading order (the comparator passed to regions.sort)\<close>

text \<open>
  The comparator: \<open>topY\<close> is \<^verbatim>\<open>Math.min(...a.box.map(p => p.y ?? 0))\<close>, \<open>leftX\<close> the
  same over x; the result is the number whose sign the sort reads.
\<close>

definition topY :: "Region \<Rightarrow> int" where
  "topY r = Math_min (map py (box r))"

definition leftX :: "Region \<Rightarrow> int" where
  "leftX r = Math_min (map px (box r))"

definition compareRegions :: "Region \<Rightarrow> Region \<Rightarrow> int" where
  "compareRegions a b =
     (let ay = topY a; by = topY b
      in if \<bar>ay - by\<bar> > 6 then ay - by
         else (let ax = leftX a; bx = leftX b in ax - bx))"

text \<open>
  \<^verbatim>\<open>Array.prototype.sort\<close> belongs to the runtime. The language standard asks for a
  stable sort by the sign of the comparator; where the comparator is consistent on the
  elements this determines the result, and stable insertion computes it. Where the
  comparator is not consistent the standard leaves the order to the implementation, so
  for such inputs no property of the model below is used other than that the result is
  a rearrangement of the input.
\<close>

fun insertBy :: "('a \<Rightarrow> 'a \<Rightarrow> int) \<Rightarrow> 'a \<Rightarrow> 'a list \<Rightarrow> 'a list" where
  "insertBy cmp x [] = [x]"
| "insertBy cmp x (y # ys) = (if cmp x y \<le> 0 then x # y # ys else y # insertBy cmp x ys)"

definition sortBy :: "('a \<Rightarrow> 'a \<Rightarrow> int) \<Rightarrow> 'a list \<Rightarrow> 'a list" where
  "sortBy cmp xs = foldr (insertBy cmp) xs []"

definition sortRegions :: "Region list \<Rightarrow> Region list" where
  "sortRegions regions = sortBy compareRegions regions"

subsection \<open>The order as the specification words it\<close>

definition in_claimed_order :: "Region \<Rightarrow> Region \<Rightarrow> bool" where
  "in_claimed_order a b =
     (if \<bar>topY a - topY b\<bar> > 6 then topY a < topY b else leftX a \<le> leftX b)"

definition consistent_on :: "Region list \<Rightarrow> bool" where
  "consistent_on rs =
     (\<forall>a \<in> set rs. \<forall>b \<in> set rs. \<forall>c \<in> set rs.
        compareRegions a b \<le> 0 \<and> compareRegions b c \<le> 0 \<longrightarrow> compareRegions a c \<le> 0)"

definition mkRegion :: "string \<Rightarrow> Pt list \<Rightarrow> Region" where
  "mkRegion t b = \<lparr>rtext = t, box = b\<rparr>"

text \<open>Three regions whose tops are 0, 5 and 10 and whose left edges are 10, 5 and 0.\<close>

definition stair_a :: Region where
  "stair_a = mkRegion ''a'' [pt 10 0, pt 40 0, pt 40 4, pt 10 4]"

definition stair_b :: Region where
  "stair_b = mkRegion ''b'' [pt 5 5, pt 40 5, pt 40 9, pt 5 9]"

definition stair_c :: Region where
  "stair_c = mkRegion ''c'' [pt 0 10, pt 40 10, pt 40 14, pt 0 14]"

definition stair_d :: Region where
  "stair_d = mkRegion ''d'' [pt 0 2, pt 8 2, pt 8 6, pt 0 6]"

definition rows_separated :: "Region list \<Rightarrow> bool" where
  "rows_separated rs =
     (\<forall>a \<in> set rs. \<forall>b \<in> set rs. \<forall>c \<in> set rs.
        \<bar>topY a - topY b\<bar> \<le> 6 \<and> \<bar>topY b - topY c\<bar> \<le> 6 \<longrightarrow> \<bar>topY a - topY c\<bar> \<le> 6)"

section \<open>Word wrap (wrapLines, overlay.ts)\<close>

text \<open>
  \<^verbatim>\<open>text.replace(/\s+/g, ' ')\<close>: every maximal run of white space becomes one space.
\<close>

function collapseWs :: "string \<Rightarrow> string" where
  "collapseWs [] = []"
| "collapseWs (c # cs) =
     (if is_ws c then CHR '' '' # collapseWs (dropWhile is_ws cs) else c # collapseWs cs)"
  by pat_completeness auto
termination
  by (relation "measure length") (simp_all add: length_dropWhile_le less_Suc_eq_le)

text \<open>
  \<^verbatim>\<open>s.split(' ')\<close>: the pieces between the spaces, empty pieces included; the empty
  string splits into one empty piece.
\<close>

fun splitOn :: "char \<Rightarrow> string \<Rightarrow> string list" where
  "splitOn d [] = [[]]"
| "splitOn d (c # cs) =
     (if c = d then [] # splitOn d cs
      else (case splitOn d cs of [] \<Rightarrow> [[c]] | p # ps \<Rightarrow> (c # p) # ps))"

text \<open>\<^verbatim>\<open>.trim().split(' ').filter(Boolean)\<close>: the empty pieces are dropped.\<close>

definition wordsOfText :: "string \<Rightarrow> string list" where
  "wordsOfText t = filter (\<lambda>w. w \<noteq> []) (splitOn CHR '' '' (trim (collapseWs t)))"

text \<open>
  The loop over the words with its two variables \<^verbatim>\<open>out\<close> and \<^verbatim>\<open>line\<close>, and the final
  push of a non-empty line. The measure \<open>m\<close> is \<^verbatim>\<open>ctx.measureText(s).width\<close> for the font
  that is set when the function is called.
\<close>

function wrapLoop :: "(string \<Rightarrow> 'w::linorder) \<Rightarrow> 'w \<Rightarrow> string list \<Rightarrow> string \<Rightarrow> string list \<Rightarrow> string list" where
  "wrapLoop m maxWidth out line [] = (if line \<noteq> [] then out @ [line] else out)"
| "wrapLoop m maxWidth out line (w # ws) =
     (let test = (if line \<noteq> [] then line @ '' '' @ w else w)
      in if m test > maxWidth \<and> line \<noteq> [] then wrapLoop m maxWidth (out @ [line]) w ws
         else wrapLoop m maxWidth out test ws)"
  by pat_completeness auto
termination
  by (relation "measure (\<lambda>(m, maxWidth, out, line, ws). length ws)")
    (simp_all only: wf_measure in_measure prod.case length_Cons lessI)

definition wrapLines :: "(string \<Rightarrow> 'w::linorder) \<Rightarrow> string \<Rightarrow> 'w \<Rightarrow> string list" where
  "wrapLines m t maxWidth = wrapLoop m maxWidth [] [] (wordsOfText t)"

subsection \<open>Lines as groups of words\<close>

text \<open>
  The same loop on lists of words: a line is the list of the words on it, and its text
  is these words joined by single spaces.
\<close>

fun joinWords :: "string list \<Rightarrow> string" where
  "joinWords [] = []"
| "joinWords [w] = w"
| "joinWords (w # v # vs) = w @ '' '' @ joinWords (v # vs)"

function groupLoop :: "(string \<Rightarrow> 'w::linorder) \<Rightarrow> 'w \<Rightarrow> string list list \<Rightarrow> string list \<Rightarrow> string list \<Rightarrow> string list list" where
  "groupLoop m maxWidth out grp [] = (if grp \<noteq> [] then out @ [grp] else out)"
| "groupLoop m maxWidth out grp (w # ws) =
     (if grp \<noteq> [] \<and> m (joinWords (grp @ [w])) > maxWidth
      then groupLoop m maxWidth (out @ [grp]) [w] ws
      else groupLoop m maxWidth out (grp @ [w]) ws)"
  by pat_completeness auto
termination
  by (relation "measure (\<lambda>(m, maxWidth, out, grp, ws). length ws)")
    (simp_all only: wf_measure in_measure prod.case length_Cons lessI)

definition lineGroups :: "(string \<Rightarrow> 'w::linorder) \<Rightarrow> 'w \<Rightarrow> string list \<Rightarrow> string list list" where
  "lineGroups m maxWidth ws = groupLoop m maxWidth [] [] ws"

text \<open>
  A line was closed only because the next word did not fit: the line together with the
  first word of the following line is wider than the limit.
\<close>

fun greedy_ok :: "(string \<Rightarrow> 'w::linorder) \<Rightarrow> 'w \<Rightarrow> string list list \<Rightarrow> bool" where
  "greedy_ok m maxWidth (g # h # gs) =
     (m (joinWords (g @ [hd h])) > maxWidth \<and> greedy_ok m maxWidth (h # gs))"
| "greedy_ok m maxWidth gs = True"

definition fits :: "(string \<Rightarrow> 'w::linorder) \<Rightarrow> 'w \<Rightarrow> string list \<Rightarrow> bool" where
  "fits m maxWidth g = (g \<noteq> [] \<and> (m (joinWords g) \<le> maxWidth \<or> length g = 1))"

subsection \<open>The words as the specification has them\<close>

text \<open>
  The maximal runs of characters that are not separators, from left to right: skip the
  separators, take the longest separator-free prefix, go on behind it. With white space
  as the separator these are the words of a text.
\<close>

function runsBy :: "(char \<Rightarrow> bool) \<Rightarrow> string \<Rightarrow> string list" where
  "runsBy P s =
     (case dropWhile P s of
        [] \<Rightarrow> []
      | c # cs \<Rightarrow> takeWhile (\<lambda>x. \<not> P x) (c # cs) # runsBy P (dropWhile (\<lambda>x. \<not> P x) (c # cs)))"
  by pat_completeness auto
termination
proof (relation "measure (\<lambda>(P, s). length s)")
  show "wf (measure (\<lambda>(P, s). length s))" by (rule wf_measure)
next
  fix P :: "char \<Rightarrow> bool" and s :: string and c :: char and cs :: string
  assume d: "dropWhile P s = c # cs"
  have "\<not> P c" using hd_dropWhile [of P s] d by simp
  then have "dropWhile (\<lambda>x. \<not> P x) (c # cs) = dropWhile (\<lambda>x. \<not> P x) cs" by simp
  moreover have "length (dropWhile (\<lambda>x. \<not> P x) cs) \<le> length cs" by (rule length_dropWhile_le)
  moreover have "length (c # cs) \<le> length s"
    using length_dropWhile_le [of P s] d by simp
  ultimately show "((P, dropWhile (\<lambda>x. \<not> P x) (c # cs)), (P, s)) \<in> measure (\<lambda>(P, s). length s)"
    by simp
qed

declare runsBy.simps [simp del]

definition blankFreeRuns :: "string \<Rightarrow> string list" where
  "blankFreeRuns t = runsBy is_ws t"

text \<open>
  Every prefix of a line that has two or more words fits: no word was added to a line
  that it made too wide. (The first word of a line is placed whatever its width.)
\<close>

definition prefixes_fit :: "(string \<Rightarrow> 'w::linorder) \<Rightarrow> 'w \<Rightarrow> string list \<Rightarrow> bool" where
  "prefixes_fit m maxWidth g =
     (\<forall>k. 2 \<le> k \<and> k \<le> length g \<longrightarrow> m (joinWords (take k g)) \<le> maxWidth)"

section \<open>Overlay rendering (overlayTranslations, overlay.ts)\<close>

text \<open>
  The source computes with doubles. On the integers that occur here (pixel sizes and font
  sizes) the products with 0.75 and 1.25 are exact, and the floor of the product with
  0.9 or 0.08 is the floor of the exact product: the rounding error of the double is far
  smaller than the distance of a non-integral product to the next integer. The
  definitions therefore use integer arithmetic; the lemmas \<open>startFont_floor\<close>,
  \<open>shrink_floor\<close>, \<open>lineHeightOf_ceiling\<close> and \<open>padOf_floor\<close> give them in the form of
  the source.
\<close>

text \<open>\<^verbatim>\<open>Math.floor(Math.min(w, h) * 0.08)\<close>\<close>

definition padOf :: "int \<Rightarrow> int \<Rightarrow> int" where
  "padOf w h = (min w h * 8) div 100"

text \<open>\<^verbatim>\<open>Math.max(10, Math.floor(maxH * 0.75))\<close>\<close>

definition startFont :: "int \<Rightarrow> int" where
  "startFont maxH = max 10 ((maxH * 3) div 4)"

text \<open>\<^verbatim>\<open>Math.ceil(fontSize * 1.25)\<close>\<close>

definition lineHeightOf :: "int \<Rightarrow> int" where
  "lineHeightOf fontSize = - ((- (fontSize * 5)) div 4)"

text \<open>\<^verbatim>\<open>Math.floor(fontSize * 0.9)\<close>\<close>

definition shrink :: "int \<Rightarrow> int" where
  "shrink fontSize = (fontSize * 9) div 10"

text \<open>
  The loop \<^verbatim>\<open>for (;;)\<close> that chooses the font size. The measure \<open>mt fontSize\<close> is
  \<^verbatim>\<open>ctx.measureText\<close> under the font \<^verbatim>\<open>${fontSize}px sans-serif\<close>. The result is the
  triple of \<^verbatim>\<open>fontSize\<close>, \<^verbatim>\<open>lines\<close> and \<^verbatim>\<open>lineHeight\<close> at the \<^verbatim>\<open>break\<close>.
\<close>

function fontFit :: "(int \<Rightarrow> string \<Rightarrow> real) \<Rightarrow> string \<Rightarrow> int \<Rightarrow> int \<Rightarrow> int
    \<Rightarrow> int \<times> string list \<times> int" where
  "fontFit mt t maxW maxH fontSize =
     (let lineHeight = lineHeightOf fontSize;
          lines = wrapLines (mt fontSize) t (real_of_int maxW);
          neededH = int (length lines) * lineHeight
      in if neededH \<le> maxH \<or> fontSize \<le> 10 then (fontSize, lines, lineHeight)
         else fontFit mt t maxW maxH (shrink fontSize))"
  by pat_completeness auto
termination
proof (relation "measure (\<lambda>(mt, t, maxW, maxH, fontSize). nat fontSize)")
  show "wf (measure (\<lambda>(mt, t, maxW, maxH, fontSize). nat fontSize))" by (rule wf_measure)
next
  fix mt :: "int \<Rightarrow> string \<Rightarrow> real" and t :: string and maxW maxH fontSize x xa xb :: int
    and xs :: "string list"
  assume "\<not> (xb \<le> maxH \<or> fontSize \<le> 10)"
  then have "10 < fontSize" by simp
  then have "shrink fontSize < fontSize" by (simp add: shrink_def)
  with \<open>10 < fontSize\<close>
  show "((mt, t, maxW, maxH, shrink fontSize), (mt, t, maxW, maxH, fontSize))
      \<in> measure (\<lambda>(mt, t, maxW, maxH, fontSize). nat fontSize)"
    by simp
qed

declare fontFit.simps [simp del]


text \<open>The font sizes the loop tries, in order: one entry for each pass through the body.\<close>

function fontTrace :: "(int \<Rightarrow> string \<Rightarrow> real) \<Rightarrow> string \<Rightarrow> int \<Rightarrow> int \<Rightarrow> int \<Rightarrow> int list" where
  "fontTrace mt t maxW maxH fontSize =
     (let lineHeight = lineHeightOf fontSize;
          lines = wrapLines (mt fontSize) t (real_of_int maxW);
          neededH = int (length lines) * lineHeight
      in if neededH \<le> maxH \<or> fontSize \<le> 10 then [fontSize]
         else fontSize # fontTrace mt t maxW maxH (shrink fontSize))"
  by pat_completeness auto
termination
proof (relation "measure (\<lambda>(mt, t, maxW, maxH, fontSize). nat fontSize)")
  show "wf (measure (\<lambda>(mt, t, maxW, maxH, fontSize). nat fontSize))" by (rule wf_measure)
next
  fix mt :: "int \<Rightarrow> string \<Rightarrow> real" and t :: string and maxW maxH fontSize x xa xb :: int
    and xs :: "string list"
  assume "\<not> (xb \<le> maxH \<or> fontSize \<le> 10)"
  then have "10 < fontSize" by simp
  then have "shrink fontSize < fontSize" by (simp add: shrink_def)
  with \<open>10 < fontSize\<close>
  show "((mt, t, maxW, maxH, shrink fontSize), (mt, t, maxW, maxH, fontSize))
      \<in> measure (\<lambda>(mt, t, maxW, maxH, fontSize). nat fontSize)"
    by simp
qed

declare fontTrace.simps [simp del]

text \<open>The condition of the \<^verbatim>\<open>break\<close>: \<^verbatim>\<open>neededH <= maxH || fontSize <= 10\<close>.\<close>

definition stops :: "(int \<Rightarrow> string \<Rightarrow> real) \<Rightarrow> string \<Rightarrow> int \<Rightarrow> int \<Rightarrow> int \<Rightarrow> bool" where
  "stops mt t maxW maxH fontSize =
     (int (length (wrapLines (mt fontSize) t (real_of_int maxW))) * lineHeightOf fontSize \<le> maxH
      \<or> fontSize \<le> 10)"

text \<open>
  The canvas is the list of the drawing calls made on it: \<^verbatim>\<open>fillRect\<close> in white and
  \<^verbatim>\<open>fillText\<close> in black.
\<close>

datatype canvas_op = FillRect int int int int | FillText string int int

text \<open>
  The drawing loop: \<^verbatim>\<open>if (cy > y + h - lineHeight) break\<close>, then the line is drawn
  at \<^verbatim>\<open>(x + pad, cy)\<close> and \<^verbatim>\<open>cy\<close> advances by the line height.
\<close>

fun drawLines :: "int \<Rightarrow> int \<Rightarrow> int \<Rightarrow> int \<Rightarrow> string list \<Rightarrow> canvas_op list" where
  "drawLines x0 limit lineHeight cy [] = []"
| "drawLines x0 limit lineHeight cy (line # rest) =
     (if cy > limit then []
      else FillText line x0 cy # drawLines x0 limit lineHeight (cy + lineHeight) rest)"

definition renderRegion :: "(int \<Rightarrow> string \<Rightarrow> real) \<Rightarrow> int \<Rightarrow> int \<Rightarrow> DrawRegion \<Rightarrow> canvas_op list" where
  "renderRegion mt imgW imgH r =
     (let rc = rectOf imgW imgH (box r);
          x = rx rc; y = ry rc; w = rw rc; h = rh rc;
          pad = padOf w h;
          maxW = max 10 (w - 2 * pad);
          maxH = max 10 (h - 2 * pad);
          (fontSize, lines, lineHeight) = fontFit mt (translated r) maxW maxH (startFont maxH)
      in FillRect x y w h # drawLines (x + pad) (y + h - lineHeight) lineHeight (y + pad) lines)"

definition overlayTranslations :: "(int \<Rightarrow> string \<Rightarrow> real) \<Rightarrow> int \<Rightarrow> int \<Rightarrow> DrawRegion list \<Rightarrow> canvas_op list" where
  "overlayTranslations mt imgW imgH regions = concat (map (renderRegion mt imgW imgH) regions)"

text \<open>
  \<^verbatim>\<open>regions.map((r, i) => ({ ...r, translated: translated[i] ?? '' }))\<close>: an index
  beyond the translated list reads as undefined.
\<close>

definition toDraw :: "Region list \<Rightarrow> string list \<Rightarrow> DrawRegion list" where
  "toDraw regions tr =
     map (\<lambda>(r, i). \<lparr>rtext = rtext r, box = box r,
                     translated = (if i < length tr then tr ! i else [])\<rparr>)
       (zip regions [0..<length regions])"

text \<open>A sample measure: every character is half the font size wide.\<close>

definition charWidth :: "int \<Rightarrow> string \<Rightarrow> real" where
  "charWidth fontSize s = real_of_int fontSize * real (length s) / 2"


text \<open>
  Steps 3 and 4 of the request handler: the translation request is built from the sorted
  regions, and its answer is paired with the same list. The translation service is the
  parameter \<open>translateBatch\<close>.
\<close>

definition drawPayload :: "Page list option \<Rightarrow> (string list \<Rightarrow> string list) \<Rightarrow> DrawRegion list" where
  "drawPayload anno translateBatch =
     (let regions = sortRegions (buildRegions anno);
          tr = translateBatch (map rtext regions)
      in toDraw regions tr)"

definition mkDraw :: "string \<Rightarrow> Pt list \<Rightarrow> string \<Rightarrow> DrawRegion" where
  "mkDraw t b tr = \<lparr>rtext = t, box = b, translated = tr\<rparr>"

section \<open>Properties of the reconstruction\<close>

lemma matchHspaceNl_shorter: "matchHspaceNl s = Some r \<Longrightarrow> length r < length s"
proof -
  assume m: "matchHspaceNl s = Some r"
  then obtain c cs where s: "s = c # cs"
    by (cases s) (auto simp: matchHspaceNl_def)
  from m s obtain d where d: "dropWhile is_hspace cs = d # r"
    by (auto simp: matchHspaceNl_def split: if_splits list.splits)
  have "length (dropWhile is_hspace cs) \<le> length cs"
    by (rule length_dropWhile_le)
  with d s show ?thesis by simp
qed

lemma appendBreak_append: "appendBreak br out = out @ appendBreak br []"
  by (simp add: appendBreak_def Let_def)

lemma appendSymbol_eq:
  "appendSymbol s out = out @ rawText s @ appendBreak (sym_break s) []"
  by (metis appendBreak_append appendSymbol_def append.assoc)

lemma fold_appendSymbol:
  "fold appendSymbol ss out =
     out @ concat (map (\<lambda>s. rawText s @ appendBreak (sym_break s) []) ss)"
  by (induction ss arbitrary: out) (simp_all add: appendSymbol_eq)

lemma fold_words:
  "fold (\<lambda>w out. fold appendSymbol (symbolsOf w) out) ws out =
     out @ concat (map (\<lambda>s. rawText s @ appendBreak (sym_break s) [])
       (concat (map symbolsOf ws)))"
  by (induction ws arbitrary: out) (simp_all add: fold_appendSymbol)

lemma paragraphRaw_concat:
  "paragraphRaw pg =
     concat (map (\<lambda>s. rawText s @ appendBreak (sym_break s) []) (symbolsInTreeOrder pg))"
  by (simp add: paragraphRaw_def symbolsInTreeOrder_def fold_words)

lemma before_nl_Cons:
  "before_nl (c # cs) = (if is_hspace c then before_nl cs else c = nl)"
  by (simp add: before_nl_def)

lemma nl_not_hspace: "\<not> is_hspace nl"
  by (simp add: is_hspace_def nl_def tab_def)

lemma dropHspaceBeforeNl_skip:
  "dropWhile is_hspace cs = nl # ds \<Longrightarrow>
     dropHspaceBeforeNl cs = nl # dropHspaceBeforeNl ds"
proof (induction cs)
  case Nil
  then show ?case by simp
next
  case (Cons c cs)
  show ?case
  proof (cases "is_hspace c")
    case True
    with Cons.prems have d: "dropWhile is_hspace cs = nl # ds" by simp
    then have "before_nl cs" by (simp add: before_nl_def)
    with True Cons.IH [OF d] show ?thesis by simp
  next
    case False
    with Cons.prems have "c = nl" "cs = ds" by simp_all
    with False show ?thesis by simp
  qed
qed

lemma replaceHspaceNl_spec: "replaceHspaceNl s = dropHspaceBeforeNl s"
proof (induction s rule: replaceHspaceNl.induct)
  case 1
  show ?case by simp
next
  case (2 c cs)
  show ?case
  proof (cases "matchHspaceNl (c # cs)")
    case None
    have "\<not> (is_hspace c \<and> before_nl cs)"
    proof
      assume a: "is_hspace c \<and> before_nl cs"
      then obtain ds where "dropWhile is_hspace cs = nl # ds"
        by (auto simp: before_nl_def split: list.splits)
      with a None show False by (simp add: matchHspaceNl_def)
    qed
    moreover from None "2.IH" have "replaceHspaceNl cs = dropHspaceBeforeNl cs"
      by simp
    ultimately show ?thesis using None by auto
  next
    case (Some rest)
    then have hc: "is_hspace c"
      by (simp add: matchHspaceNl_def split: if_splits)
    with Some have d: "dropWhile is_hspace cs = nl # rest"
      by (auto simp: matchHspaceNl_def split: list.splits if_splits)
    from d have b: "before_nl cs" by (simp add: before_nl_def)
    from Some "2.IH" have "replaceHspaceNl (c # cs) = nl # dropHspaceBeforeNl rest"
      by simp
    also have "\<dots> = dropHspaceBeforeNl cs"
      using dropHspaceBeforeNl_skip [OF d] by simp
    also have "\<dots> = dropHspaceBeforeNl (c # cs)"
      using hc b by simp
    finally show ?thesis .
  qed
qed

text \<open>
  On every break code other than SURE_SPACE and 2 the three conditionals append the
  separator of the specification's table.
\<close>

lemma appendBreak_table:
  "br \<noteq> Named ''SURE_SPACE'' \<Longrightarrow> br \<noteq> Numeric 2 \<Longrightarrow>
     appendBreak br [] = separator (resolve_table br)"
  by (simp add: appendBreak_def resolve_table_def Let_def)

lemma paragraphRaw_table:
  assumes "\<forall>s \<in> set (symbolsInTreeOrder pg).
      sym_break s \<noteq> Named ''SURE_SPACE'' \<and> sym_break s \<noteq> Numeric 2"
  shows "paragraphRaw pg =
     concat (map (\<lambda>s. rawText s @ separator (resolve_table (sym_break s)))
       (symbolsInTreeOrder pg))"
proof -
  have "map (\<lambda>s. rawText s @ appendBreak (sym_break s) []) (symbolsInTreeOrder pg)
      = map (\<lambda>s. rawText s @ separator (resolve_table (sym_break s))) (symbolsInTreeOrder pg)"
    using assms by (intro map_cong refl) (simp add: appendBreak_table)
  then show ?thesis by (simp only: paragraphRaw_concat)
qed

lemma trim_no_leading_ws: "trim s \<noteq> [] \<Longrightarrow> \<not> is_ws (hd (trim s))"
proof -
  assume ne: "trim s \<noteq> []"
  let ?t = "dropWhile is_ws s"
  have split: "?t = rev (dropWhile is_ws (rev ?t)) @ rev (takeWhile is_ws (rev ?t))"
    by (metis rev_append rev_rev_ident takeWhile_dropWhile_id)
  from ne have "hd ?t = hd (trim s)"
    using split by (metis hd_append2 trim_def)
  moreover have "?t \<noteq> []"
  proof
    assume "?t = []"
    then have "trim s = []" by (simp only: trim_def rev.simps dropWhile.simps)
    with ne show False by simp
  qed
  then have "\<not> is_ws (hd ?t)"
    by (rule hd_dropWhile)
  ultimately show ?thesis by simp
qed

lemma trim_no_trailing_ws: "trim s \<noteq> [] \<Longrightarrow> \<not> is_ws (last (trim s))"
proof -
  assume ne: "trim s \<noteq> []"
  let ?r = "dropWhile is_ws (rev (dropWhile is_ws s))"
  from ne have r: "?r \<noteq> []" by (simp add: trim_def)
  then have "\<not> is_ws (hd ?r)" by (rule hd_dropWhile)
  moreover have "last (trim s) = hd ?r"
    using r by (simp add: trim_def last_rev)
  ultimately show ?thesis by simp
qed

text \<open>
  C6. For every paragraph none of whose symbols carries the break SURE_SPACE or 2, the
  reconstructed text is the concatenation, over the words and then the symbols of each
  word in tree order, of the symbol's raw text followed by the separator that the
  specification's table resolves its break to (one space, one line feed or nothing); in
  that string every run of spaces and tabs immediately before a line feed is deleted,
  and the result is trimmed. For every paragraph the result neither starts nor ends
  with white space. The symbols H, e, l, l, o with a space break after the last, then
  W, o, r, l, d, give "Hello World". Where a symbol carries SURE_SPACE the code departs
  from the claim: for "a" with SURE_SPACE and then "b" the claim's reconstruction is
  "a b" and the code returns "ab".
\<close>

theorem getParagraphText_reconstruct:
  "((\<forall>s \<in> set (symbolsInTreeOrder pg).
        sym_break s \<noteq> Named ''SURE_SPACE'' \<and> sym_break s \<noteq> Numeric 2)
      \<longrightarrow> getParagraphText pg = reconstruct_spec pg)
   \<and> (getParagraphText pg = []
      \<or> (\<not> is_ws (hd (getParagraphText pg)) \<and> \<not> is_ws (last (getParagraphText pg))))
   \<and> getParagraphText
        (mkParagraph
          [mkWord [mkSymbol ''H'' Unset, mkSymbol ''e'' Unset, mkSymbol ''l'' Unset,
                   mkSymbol ''l'' Unset, mkSymbol ''o'' (Named ''SPACE'')],
           mkWord [mkSymbol ''W'' Unset, mkSymbol ''o'' Unset, mkSymbol ''r'' Unset,
                   mkSymbol ''l'' Unset, mkSymbol ''d'' Unset]] [])
       = ''Hello World''
   \<and> reconstruct_spec
        (mkParagraph [mkWord [mkSymbol ''a'' (Named ''SURE_SPACE'')],
                      mkWord [mkSymbol ''b'' Unset]] []) = ''a b''
   \<and> getParagraphText
        (mkParagraph [mkWord [mkSymbol ''a'' (Named ''SURE_SPACE'')],
                      mkWord [mkSymbol ''b'' Unset]] []) = ''ab''"
proof (intro conjI impI)
  assume "\<forall>s \<in> set (symbolsInTreeOrder pg).
        sym_break s \<noteq> Named ''SURE_SPACE'' \<and> sym_break s \<noteq> Numeric 2"
  then have "paragraphRaw pg =
     concat (map (\<lambda>s. rawText s @ separator (resolve_table (sym_break s)))
       (symbolsInTreeOrder pg))"
    by (rule paragraphRaw_table)
  then show "getParagraphText pg = reconstruct_spec pg"
    by (simp only: getParagraphText_def reconstruct_spec_def replaceHspaceNl_spec)
next
  show "getParagraphText pg = []
      \<or> (\<not> is_ws (hd (getParagraphText pg)) \<and> \<not> is_ws (last (getParagraphText pg)))"
    unfolding getParagraphText_def
    using trim_no_leading_ws trim_no_trailing_ws by blast
  show "getParagraphText
        (mkParagraph
          [mkWord [mkSymbol ''H'' Unset, mkSymbol ''e'' Unset, mkSymbol ''l'' Unset,
                   mkSymbol ''l'' Unset, mkSymbol ''o'' (Named ''SPACE'')],
           mkWord [mkSymbol ''W'' Unset, mkSymbol ''o'' Unset, mkSymbol ''r'' Unset,
                   mkSymbol ''l'' Unset, mkSymbol ''d'' Unset]] [])
       = ''Hello World''"
    by code_simp
  show "reconstruct_spec
        (mkParagraph [mkWord [mkSymbol ''a'' (Named ''SURE_SPACE'')],
                      mkWord [mkSymbol ''b'' Unset]] []) = ''a b''"
    by code_simp
  show "getParagraphText
        (mkParagraph [mkWord [mkSymbol ''a'' (Named ''SURE_SPACE'')],
                      mkWord [mkSymbol ''b'' Unset]] []) = ''ab''"
    by code_simp
qed

theorem getParagraphText_reconstruct_witness:
  "getParagraphText
     (mkParagraph
        [mkWord [mkSymbol ''a '' (Named ''LINE_BREAK''), mkSymbol ''b'' (Numeric 3)],
         mkWord [mkSymbol ''c'' (Named ''HYPHEN''), mkSymbol ''d'' (Numeric 1),
                 mkSymbol ''e'' Unset]] [])
   = ''a'' @ [nl] @ ''b cd e''
   \<and> reconstruct_spec
     (mkParagraph
        [mkWord [mkSymbol ''a '' (Named ''LINE_BREAK''), mkSymbol ''b'' (Numeric 3)],
         mkWord [mkSymbol ''c'' (Named ''HYPHEN''), mkSymbol ''d'' (Numeric 1),
                 mkSymbol ''e'' Unset]] [])
   = ''a'' @ [nl] @ ''b cd e''"
proof -
  let ?pg = "mkParagraph
        [mkWord [mkSymbol ''a '' (Named ''LINE_BREAK''), mkSymbol ''b'' (Numeric 3)],
         mkWord [mkSymbol ''c'' (Named ''HYPHEN''), mkSymbol ''d'' (Numeric 1),
                 mkSymbol ''e'' Unset]] []"
  have h: "\<forall>s \<in> set (symbolsInTreeOrder ?pg).
      sym_break s \<noteq> Named ''SURE_SPACE'' \<and> sym_break s \<noteq> Numeric 2"
    by code_simp
  with getParagraphText_reconstruct [of ?pg]
  have g: "getParagraphText ?pg = reconstruct_spec ?pg" by blast
  have r: "reconstruct_spec ?pg = ''a'' @ [nl] @ ''b cd e''" by code_simp
  from g r show ?thesis by simp
qed

text \<open>
  C1. The table of the specification gives one space for SURE_SPACE and for the numeric
  code 2. The source tests SPACE or 1, EOL_SURE_SPACE or 3 and LINE_BREAK or 5 only: for
  SURE_SPACE and for 2 nothing is appended, and a paragraph whose symbol "a" carries
  SURE_SPACE before the symbol "b" is reconstructed as "ab".
\<close>

theorem sure_space_appends_nothing:
  "resolve_table (Named ''SURE_SPACE'') = SPACE
   \<and> resolve_table (Numeric 2) = SPACE
   \<and> appendBreak (Named ''SURE_SPACE'') ''a'' = ''a''
   \<and> appendBreak (Numeric 2) ''a'' = ''a''
   \<and> getParagraphText
        (mkParagraph [mkWord [mkSymbol ''a'' (Named ''SURE_SPACE'')],
                      mkWord [mkSymbol ''b'' Unset]] []) = ''ab''
   \<and> getParagraphText
        (mkParagraph [mkWord [mkSymbol ''a'' (Named ''SPACE'')],
                      mkWord [mkSymbol ''b'' Unset]] []) = ''a b''"
  by code_simp

section \<open>Properties of the region extraction\<close>

lemma fold_pushParagraph:
  "fold pushParagraph pgs rs =
     rs @ map (\<lambda>pg. \<lparr>rtext = getParagraphText pg, box = boxOf pg\<rparr>)
            (filter (\<lambda>pg. getParagraphText pg \<noteq> [] \<and> 4 \<le> length (verticesOf pg)) pgs)"
  by (induction pgs arbitrary: rs) (simp_all add: pushParagraph_def Let_def boxOf_def)

lemma fold_blocks:
  "fold (\<lambda>b rs. fold pushParagraph (paragraphsOf b) rs) bs rs =
     rs @ map (\<lambda>pg. \<lparr>rtext = getParagraphText pg, box = boxOf pg\<rparr>)
            (filter (\<lambda>pg. getParagraphText pg \<noteq> [] \<and> 4 \<le> length (verticesOf pg))
               (concat (map paragraphsOf bs)))"
  by (induction bs arbitrary: rs) (simp_all add: fold_pushParagraph)

lemma fold_pages:
  "fold (\<lambda>p rs. fold (\<lambda>b rs. fold pushParagraph (paragraphsOf b) rs) (blocksOf p) rs) ps rs =
     rs @ map (\<lambda>pg. \<lparr>rtext = getParagraphText pg, box = boxOf pg\<rparr>)
            (filter (\<lambda>pg. getParagraphText pg \<noteq> [] \<and> 4 \<le> length (verticesOf pg))
               (concat (map (\<lambda>p. concat (map paragraphsOf (blocksOf p))) ps)))"
  by (induction ps arbitrary: rs) (simp_all add: fold_blocks)

lemma buildRegions_filter:
  "buildRegions anno =
     map (\<lambda>pg. \<lparr>rtext = getParagraphText pg, box = boxOf pg\<rparr>)
       (filter (\<lambda>pg. getParagraphText pg \<noteq> [] \<and> 4 \<le> length (verticesOf pg))
          (paragraphsInTreeOrder anno))"
  by (simp add: buildRegions_def paragraphsInTreeOrder_def fold_pages)

lemma toPt_default:
  "px (toPt v) = (case v of None \<Rightarrow> 0 | Some u \<Rightarrow> coord_or_zero (vx u))"
  "py (toPt v) = (case v of None \<Rightarrow> 0 | Some u \<Rightarrow> coord_or_zero (vy u))"
  by (simp_all add: toPt_def coord_or_zero_def split: option.splits)

text \<open>
  C8. The regions are, in tree order, exactly the paragraphs whose reconstructed (trimmed)
  text is non-empty and whose bounding polygon has at least four vertices, each with its
  text and its polygon; every region therefore has a non-empty text and four or more
  points. A missing vertex, and a missing x or y of a vertex, reads as 0. The extraction
  is a total function: it has no failing branch, whatever the geometry is.
\<close>

theorem buildRegions_iff:
  "buildRegions anno =
     map (\<lambda>pg. \<lparr>rtext = getParagraphText pg, box = boxOf pg\<rparr>)
       (filter (\<lambda>pg. getParagraphText pg \<noteq> [] \<and> 4 \<le> length (verticesOf pg))
          (paragraphsInTreeOrder anno))
   \<and> (\<forall>r \<in> set (buildRegions anno). rtext r \<noteq> [] \<and> 4 \<le> length (box r))
   \<and> length (boxOf pg) = length (verticesOf pg)
   \<and> (\<forall>i < length (verticesOf pg).
        px (boxOf pg ! i)
          = (case verticesOf pg ! i of None \<Rightarrow> 0 | Some u \<Rightarrow> coord_or_zero (vx u))
        \<and> py (boxOf pg ! i)
          = (case verticesOf pg ! i of None \<Rightarrow> 0 | Some u \<Rightarrow> coord_or_zero (vy u)))"
proof (intro conjI)
  show "buildRegions anno =
     map (\<lambda>pg. \<lparr>rtext = getParagraphText pg, box = boxOf pg\<rparr>)
       (filter (\<lambda>pg. getParagraphText pg \<noteq> [] \<and> 4 \<le> length (verticesOf pg))
          (paragraphsInTreeOrder anno))"
    by (rule buildRegions_filter)
  show "\<forall>r \<in> set (buildRegions anno). rtext r \<noteq> [] \<and> 4 \<le> length (box r)"
    by (auto simp: buildRegions_filter boxOf_def)
  show "length (boxOf pg) = length (verticesOf pg)"
    by (simp add: boxOf_def)
  show "\<forall>i < length (verticesOf pg).
        px (boxOf pg ! i)
          = (case verticesOf pg ! i of None \<Rightarrow> 0 | Some u \<Rightarrow> coord_or_zero (vx u))
        \<and> py (boxOf pg ! i)
          = (case verticesOf pg ! i of None \<Rightarrow> 0 | Some u \<Rightarrow> coord_or_zero (vy u))"
    by (simp add: boxOf_def toPt_default)
qed

theorem buildRegions_iff_witness:
  "buildRegions sample_tree = [\<lparr>rtext = ''a'', box = [pt 1 0, pt 0 0, pt 0 2, pt 3 4]\<rparr>]
   \<and> set (buildRegions sample_tree) \<noteq> {}"
proof -
  have "buildRegions sample_tree =
     map (\<lambda>pg. \<lparr>rtext = getParagraphText pg, box = boxOf pg\<rparr>)
       (filter (\<lambda>pg. getParagraphText pg \<noteq> [] \<and> 4 \<le> length (verticesOf pg))
          (paragraphsInTreeOrder sample_tree))"
    using buildRegions_iff [of sample_tree "mkParagraph [] []"] by (rule conjunct1)
  also have "\<dots> = [\<lparr>rtext = ''a'', box = [pt 1 0, pt 0 0, pt 0 2, pt 3 4]\<rparr>]"
    by code_simp
  finally show ?thesis by simp
qed

section \<open>Properties of the rectangle\<close>

lemma Math_min_Min: "xs \<noteq> [] \<Longrightarrow> Math_min xs = Min (set xs)"
proof (cases xs)
  case Nil
  assume "xs \<noteq> []"
  with Nil show ?thesis by simp
next
  case (Cons a as)
  show ?thesis unfolding Cons by (simp only: Math_min.simps Min.set_eq_fold)
qed

lemma Math_max_Max: "xs \<noteq> [] \<Longrightarrow> Math_max xs = Max (set xs)"
proof (cases xs)
  case Nil
  assume "xs \<noteq> []"
  with Nil show ?thesis by simp
next
  case (Cons a as)
  show ?thesis unfolding Cons by (simp only: Math_max.simps Max.set_eq_fold)
qed

lemma Min_le_Max_list: "xs \<noteq> [] \<Longrightarrow> Min (set xs) \<le> Max (set (xs :: int list))"
proof -
  assume ne: "xs \<noteq> []"
  then have "hd xs \<in> set xs" by simp
  then have "Min (set xs) \<le> hd xs" "hd xs \<le> Max (set xs)" by simp_all
  then show ?thesis by (rule order_trans)
qed

text \<open>
  A polygon that lies to the right of a 200 pixel wide image: the code keeps x = 300,
  where the two-sided clamp of the specification gives 200.
\<close>

theorem rect_clamp_counterexample:
  "rectOf 200 200 [pt 300 0, pt 400 0, pt 400 30, pt 300 30]
     = \<lparr>rx = 300, ry = 0, rw = 1, rh = 30\<rparr>
   \<and> rect_spec 200 200 [pt 300 0, pt 400 0, pt 400 30, pt 300 30]
     = \<lparr>rx = 200, ry = 0, rw = 1, rh = 30\<rparr>
   \<and> rectOf 200 200 [pt 300 0, pt 400 0, pt 400 30, pt 300 30]
     \<noteq> rect_spec 200 200 [pt 300 0, pt 400 0, pt 400 30, pt 300 30]"
  by (simp add: rectOf_def rect_spec_def clamp_def pt_def)

text \<open>
  C2 (as the code has it). For a region with at least one vertex the rectangle is
  x = max(0, min of polygon x), y = max(0, min of polygon y), with no upper clamp,
  w = max(1, min(imgW, max of polygon x) - x) and h = max(1, min(imgH, max of polygon y) - y).
  On an image of non-negative size w and h are what the two-sided clamp formulas give
  for this x and y, and the whole rectangle is the one of the two-sided formulas whenever
  the polygon's least x is at most imgW and its least y at most imgH. The polygon
  (0,0),(100,0),(100,30),(0,30) on a 200 by 200 image gives (0,0,100,30).
\<close>

theorem rectOf_one_sided_clamp:
  assumes "bx \<noteq> []"
  shows "rx (rectOf imgW imgH bx) = max 0 (Min (set (map px bx)))
    \<and> ry (rectOf imgW imgH bx) = max 0 (Min (set (map py bx)))
    \<and> rw (rectOf imgW imgH bx)
        = max 1 (min imgW (Max (set (map px bx))) - rx (rectOf imgW imgH bx))
    \<and> rh (rectOf imgW imgH bx)
        = max 1 (min imgH (Max (set (map py bx))) - ry (rectOf imgW imgH bx))
    \<and> (0 \<le> imgW \<longrightarrow> rw (rectOf imgW imgH bx)
        = max 1 (clamp (Max (set (map px bx))) 0 imgW - rx (rectOf imgW imgH bx)))
    \<and> (0 \<le> imgH \<longrightarrow> rh (rectOf imgW imgH bx)
        = max 1 (clamp (Max (set (map py bx))) 0 imgH - ry (rectOf imgW imgH bx)))
    \<and> (0 \<le> imgW \<and> 0 \<le> imgH \<and> Min (set (map px bx)) \<le> imgW \<and> Min (set (map py bx)) \<le> imgH
        \<longrightarrow> rectOf imgW imgH bx = rect_spec imgW imgH bx)
    \<and> rectOf 200 200 [pt 0 0, pt 100 0, pt 100 30, pt 0 30]
        = \<lparr>rx = 0, ry = 0, rw = 100, rh = 30\<rparr>"
proof -
  let ?xs = "map px bx" and ?ys = "map py bx"
  from assms have ne: "?xs \<noteq> []" "?ys \<noteq> []" by simp_all
  have mn: "Math_min ?xs = Min (set ?xs)" "Math_min ?ys = Min (set ?ys)"
    using ne by (simp_all add: Math_min_Min del: set_map)
  have mx: "Math_max ?xs = Max (set ?xs)" "Math_max ?ys = Max (set ?ys)"
    using ne by (simp_all add: Math_max_Max del: set_map)
  have le: "Min (set ?xs) \<le> Max (set ?xs)" "Min (set ?ys) \<le> Max (set ?ys)"
    using ne by (simp_all add: Min_le_Max_list del: set_map)
  have r: "rectOf imgW imgH bx =
      \<lparr>rx = max 0 (Min (set ?xs)), ry = max 0 (Min (set ?ys)),
       rw = max 1 (min imgW (Max (set ?xs)) - max 0 (Min (set ?xs))),
       rh = max 1 (min imgH (Max (set ?ys)) - max 0 (Min (set ?ys)))\<rparr>"
    by (simp only: rectOf_def Let_def mn mx)
  have ex: "rectOf 200 200 [pt 0 0, pt 100 0, pt 100 30, pt 0 30]
        = \<lparr>rx = 0, ry = 0, rw = 100, rh = 30\<rparr>"
    by (simp add: rectOf_def pt_def)
  have w: "0 \<le> imgW \<longrightarrow> max 1 (min imgW (Max (set ?xs)) - max 0 (Min (set ?xs)))
        = max (1::int) (clamp (Max (set ?xs)) 0 imgW - max 0 (Min (set ?xs)))"
    using le(1) by (simp add: clamp_def max_def min_def)
  have h: "0 \<le> imgH \<longrightarrow> max 1 (min imgH (Max (set ?ys)) - max 0 (Min (set ?ys)))
        = max (1::int) (clamp (Max (set ?ys)) 0 imgH - max 0 (Min (set ?ys)))"
    using le(2) by (simp add: clamp_def max_def min_def)
  have x: "0 \<le> imgW \<and> Min (set ?xs) \<le> imgW \<longrightarrow> clamp (Min (set ?xs)) 0 imgW = max 0 (Min (set ?xs))"
    by (simp add: clamp_def max_def)
  have y: "0 \<le> imgH \<and> Min (set ?ys) \<le> imgH \<longrightarrow> clamp (Min (set ?ys)) 0 imgH = max 0 (Min (set ?ys))"
    by (simp add: clamp_def max_def)
  have sp: "0 \<le> imgW \<and> 0 \<le> imgH \<and> Min (set ?xs) \<le> imgW \<and> Min (set ?ys) \<le> imgH
        \<longrightarrow> rectOf imgW imgH bx = rect_spec imgW imgH bx"
    using w h x y by (simp add: r rect_spec_def Let_def)
  show ?thesis
    using w h sp ex by (simp add: r)
qed

theorem rectOf_one_sided_clamp_witness:
  "rectOf 640 480 [pt (-5) 10, pt 700 10, pt 700 50, pt (-5) 50]
     = \<lparr>rx = 0, ry = 10, rw = 640, rh = 40\<rparr>
   \<and> rect_spec 640 480 [pt (-5) 10, pt 700 10, pt 700 50, pt (-5) 50]
     = \<lparr>rx = 0, ry = 10, rw = 640, rh = 40\<rparr>"
  using rectOf_one_sided_clamp [of "[pt (-5) 10, pt 700 10, pt 700 50, pt (-5) 50]" 640 480]
  by (simp add: rectOf_def rect_spec_def clamp_def pt_def)

section \<open>Properties of the reading order\<close>

lemma compareRegions_antisym: "compareRegions b a = - compareRegions a b"
  by (simp add: compareRegions_def Let_def abs_minus_commute)

lemma compareRegions_claimed: "(compareRegions a b \<le> 0) = in_claimed_order a b"
  by (auto simp: compareRegions_def in_claimed_order_def Let_def)

lemma mset_insertBy: "mset (insertBy cmp x ys) = add_mset x (mset ys)"
  by (induction ys) simp_all

lemma set_insertBy: "set (insertBy cmp x ys) = insert x (set ys)"
  by (induction ys) auto

lemma mset_sortBy: "mset (sortBy cmp xs) = mset xs"
  by (induction xs) (simp_all add: sortBy_def mset_insertBy)

lemma set_sortBy: "set (sortBy cmp xs) = set xs"
  by (metis mset_sortBy set_mset_mset)

lemma sorted_insertBy:
  assumes tr: "\<And>a b c. a \<in> insert x (set ys) \<Longrightarrow> b \<in> insert x (set ys) \<Longrightarrow> c \<in> insert x (set ys)
          \<Longrightarrow> cmp a b \<le> 0 \<Longrightarrow> cmp b c \<le> 0 \<Longrightarrow> cmp a c \<le> 0"
    and anti: "\<And>a b. cmp b a = - cmp a b"
    and srt: "sorted_wrt (\<lambda>a b. cmp a b \<le> 0) ys"
  shows "sorted_wrt (\<lambda>a b. cmp a b \<le> 0) (insertBy cmp x ys)"
  using tr srt
proof (induction ys)
  case Nil
  then show ?case by simp
next
  case (Cons y ys)
  show ?case
  proof (cases "cmp x y \<le> 0")
    case True
    have "\<forall>z \<in> set ys. cmp x z \<le> 0"
    proof
      fix z assume z: "z \<in> set ys"
      with Cons.prems(2) have "cmp y z \<le> 0" by simp
      with True z show "cmp x z \<le> 0"
        using Cons.prems(1) [of x y z] by simp
    qed
    with True Cons.prems(2) show ?thesis by simp
  next
    case False
    then have yx: "cmp y x \<le> 0" using anti [of x y] by simp
    have ih: "sorted_wrt (\<lambda>a b. cmp a b \<le> 0) (insertBy cmp x ys)"
    proof (rule Cons.IH)
      fix a b c
      assume "a \<in> insert x (set ys)" "b \<in> insert x (set ys)" "c \<in> insert x (set ys)"
        "cmp a b \<le> 0" "cmp b c \<le> 0"
      then show "cmp a c \<le> 0" using Cons.prems(1) [of a b c] by auto
    next
      from Cons.prems(2) show "sorted_wrt (\<lambda>a b. cmp a b \<le> 0) ys" by simp
    qed
    from Cons.prems(2) yx have "\<forall>z \<in> set (insertBy cmp x ys). cmp y z \<le> 0"
      by (auto simp: set_insertBy)
    with False ih show ?thesis by simp
  qed
qed

lemma sorted_sortBy:
  assumes tr: "\<And>a b c. a \<in> set xs \<Longrightarrow> b \<in> set xs \<Longrightarrow> c \<in> set xs
          \<Longrightarrow> cmp a b \<le> 0 \<Longrightarrow> cmp b c \<le> 0 \<Longrightarrow> cmp a c \<le> 0"
    and anti: "\<And>a b. cmp b a = - cmp a b"
  shows "sorted_wrt (\<lambda>a b. cmp a b \<le> 0) (sortBy cmp xs)"
  using tr
proof (induction xs)
  case Nil
  show ?case by (simp add: sortBy_def)
next
  case (Cons x xs)
  have ih: "sorted_wrt (\<lambda>a b. cmp a b \<le> 0) (sortBy cmp xs)"
    by (rule Cons.IH) (use Cons.prems in auto)
  have "sorted_wrt (\<lambda>a b. cmp a b \<le> 0) (insertBy cmp x (sortBy cmp xs))"
  proof (rule sorted_insertBy [OF _ anti ih])
    fix a b c
    assume "a \<in> insert x (set (sortBy cmp xs))" "b \<in> insert x (set (sortBy cmp xs))"
      "c \<in> insert x (set (sortBy cmp xs))" "cmp a b \<le> 0" "cmp b c \<le> 0"
    then show "cmp a c \<le> 0"
      using Cons.prems [of a b c] by (simp add: set_sortBy)
  qed
  then show ?case by (simp add: sortBy_def)
qed

lemma filter_insertBy_stable:
  assumes tr: "\<And>b c. b \<in> insert x (set ys) \<Longrightarrow> c \<in> insert x (set ys)
          \<Longrightarrow> cmp b a \<le> 0 \<Longrightarrow> cmp a c \<le> 0 \<Longrightarrow> cmp b c \<le> 0"
    and anti: "\<And>a b. cmp b a = - cmp a b"
  shows "filter (\<lambda>r. cmp a r = 0) (insertBy cmp x ys) = filter (\<lambda>r. cmp a r = 0) (x # ys)"
  using tr
proof (induction ys)
  case Nil
  show ?case by simp
next
  case (Cons y ys)
  show ?case
  proof (cases "cmp x y \<le> 0")
    case True
    then show ?thesis by simp
  next
    case False
    have ih: "filter (\<lambda>r. cmp a r = 0) (insertBy cmp x ys) = filter (\<lambda>r. cmp a r = 0) (x # ys)"
      by (rule Cons.IH) (use Cons.prems in auto)
    have "\<not> (cmp a x = 0 \<and> cmp a y = 0)"
    proof
      assume e: "cmp a x = 0 \<and> cmp a y = 0"
      then have "cmp x a \<le> 0" using anti [of a x] by simp
      with e have "cmp x y \<le> 0" using Cons.prems [of x y] by simp
      with False show False by simp
    qed
    with False ih show ?thesis by auto
  qed
qed

lemma filter_sortBy_stable:
  assumes tr: "\<And>b c. b \<in> set xs \<Longrightarrow> c \<in> set xs
          \<Longrightarrow> cmp b a \<le> 0 \<Longrightarrow> cmp a c \<le> 0 \<Longrightarrow> cmp b c \<le> 0"
    and anti: "\<And>a b. cmp b a = - cmp a b"
  shows "filter (\<lambda>r. cmp a r = 0) (sortBy cmp xs) = filter (\<lambda>r. cmp a r = 0) xs"
  using tr
proof (induction xs)
  case Nil
  show ?case by (simp add: sortBy_def)
next
  case (Cons x xs)
  have ih: "filter (\<lambda>r. cmp a r = 0) (sortBy cmp xs) = filter (\<lambda>r. cmp a r = 0) xs"
    by (rule Cons.IH) (use Cons.prems in auto)
  have "filter (\<lambda>r. cmp a r = 0) (insertBy cmp x (sortBy cmp xs))
      = filter (\<lambda>r. cmp a r = 0) (x # sortBy cmp xs)"
  proof (rule filter_insertBy_stable [OF _ anti])
    fix b c
    assume "b \<in> insert x (set (sortBy cmp xs))" "c \<in> insert x (set (sortBy cmp xs))"
      "cmp b a \<le> 0" "cmp a c \<le> 0"
    then show "cmp b c \<le> 0" using Cons.prems [of b c] by (simp add: set_sortBy)
  qed
  with ih show ?case by (simp add: sortBy_def)
qed

lemma stair_orders:
  "\<not> in_claimed_order stair_a stair_b"
  "\<not> in_claimed_order stair_b stair_c"
  "\<not> in_claimed_order stair_c stair_a"
  by (simp_all add: in_claimed_order_def topY_def leftX_def stair_a_def stair_b_def
      stair_c_def mkRegion_def pt_def)

text \<open>No arrangement of the three stair regions is in the claimed order.\<close>

lemma stair_no_arrangement:
  assumes m: "mset ys = mset [stair_a, stair_b, stair_c]"
  shows "\<not> sorted_wrt in_claimed_order ys"
proof
  assume s: "sorted_wrt in_claimed_order ys"
  from m have st: "set ys = {stair_a, stair_b, stair_c}"
    by (metis list.simps(15) empty_set mset_eq_setD)
  then obtain i j k where
    i: "i < length ys" "ys ! i = stair_a" and
    j: "j < length ys" "ys ! j = stair_b" and
    k: "k < length ys" "ys ! k = stair_c"
    by (metis in_set_conv_nth insertI1 insertI2)
  have lt: "\<And>p q. p < q \<Longrightarrow> q < length ys \<Longrightarrow> in_claimed_order (ys ! p) (ys ! q)"
    using s by (simp add: sorted_wrt_iff_nth_less)
  have ne: "stair_a \<noteq> stair_b" "stair_b \<noteq> stair_c" "stair_c \<noteq> stair_a"
    by (simp_all add: stair_a_def stair_b_def stair_c_def mkRegion_def)
  have "\<not> i < j" using lt [of i j] i j stair_orders(1) by auto
  moreover have "i \<noteq> j" using i j ne(1) by auto
  moreover have "\<not> j < k" using lt [of j k] j k stair_orders(2) by auto
  moreover have "j \<noteq> k" using j k ne(2) by auto
  moreover have "\<not> k < i" using lt [of k i] k i stair_orders(3) by auto
  moreover have "k \<noteq> i" using k i ne(3) by auto
  ultimately show False by linarith
qed

text \<open>
  The sorted stair regions are therefore not in the claimed order, whichever
  rearrangement the sort returns.
\<close>

theorem sort_claimed_order_counterexample:
  "\<not> sorted_wrt in_claimed_order (sortRegions [stair_a, stair_b, stair_c])"
  by (rule stair_no_arrangement) (simp add: sortRegions_def mset_sortBy)

text \<open>
  C3 (as the code has it). The sorted list is always a rearrangement of the regions.
  Whenever the comparator is transitive on the regions that are sorted, every region a
  that comes before a region b in the result satisfies: if the tops differ by more than
  6 then topY(a) < topY(b), otherwise leftX(a) \<le> leftX(b); and the sort is stable: the
  regions that compare equal to a given region keep their input order. Here topY and
  leftX are the least y and the least x over the polygon's vertices.
\<close>

theorem sortRegions_consistent:
  "mset (sortRegions rs) = mset rs
    \<and> (consistent_on rs \<longrightarrow>
         sorted_wrt in_claimed_order (sortRegions rs)
         \<and> (\<forall>a \<in> set rs. filter (\<lambda>r. compareRegions a r = 0) (sortRegions rs)
                           = filter (\<lambda>r. compareRegions a r = 0) rs))"
proof (intro conjI impI ballI)
  show "mset (sortRegions rs) = mset rs"
    by (simp add: sortRegions_def mset_sortBy)
next
  assume c: "consistent_on rs"
  then have tr: "\<And>a b c. a \<in> set rs \<Longrightarrow> b \<in> set rs \<Longrightarrow> c \<in> set rs
     \<Longrightarrow> compareRegions a b \<le> 0 \<Longrightarrow> compareRegions b c \<le> 0 \<Longrightarrow> compareRegions a c \<le> 0"
    unfolding consistent_on_def by blast
  have "sorted_wrt (\<lambda>a b. compareRegions a b \<le> 0) (sortBy compareRegions rs)"
    by (rule sorted_sortBy [OF tr compareRegions_antisym])
  then show "sorted_wrt in_claimed_order (sortRegions rs)"
    by (simp add: sortRegions_def compareRegions_claimed)
next
  fix a assume c: "consistent_on rs" and a: "a \<in> set rs"
  from c have tr: "\<And>a b c. a \<in> set rs \<Longrightarrow> b \<in> set rs \<Longrightarrow> c \<in> set rs
     \<Longrightarrow> compareRegions a b \<le> 0 \<Longrightarrow> compareRegions b c \<le> 0 \<Longrightarrow> compareRegions a c \<le> 0"
    unfolding consistent_on_def by blast
  show "filter (\<lambda>r. compareRegions a r = 0) (sortRegions rs)
      = filter (\<lambda>r. compareRegions a r = 0) rs"
    unfolding sortRegions_def
    by (rule filter_sortBy_stable [OF _ compareRegions_antisym]) (use tr a in blast)
qed

theorem sortRegions_consistent_witness:
  "consistent_on [stair_c, stair_a, stair_d]
   \<and> sortRegions [stair_c, stair_a, stair_d] = [stair_d, stair_a, stair_c]
   \<and> sorted_wrt in_claimed_order (sortRegions [stair_c, stair_a, stair_d])"
proof -
  have c: "consistent_on [stair_c, stair_a, stair_d]"
    by (simp add: consistent_on_def compareRegions_def topY_def leftX_def stair_a_def
        stair_c_def stair_d_def mkRegion_def pt_def)
  have e: "sortRegions [stair_c, stair_a, stair_d] = [stair_d, stair_a, stair_c]"
    by code_simp
  from sortRegions_consistent [of "[stair_c, stair_a, stair_d]"] c
  have "sorted_wrt in_claimed_order (sortRegions [stair_c, stair_a, stair_d])"
    by blast
  with c e show ?thesis by (intro conjI)
qed

text \<open>
  A sufficient condition for the comparator to be transitive: "tops within 6 pixels of
  each other" is transitive among the regions, that is, the regions fall into rows.
\<close>

lemma rows_separated_consistent:
  assumes "rows_separated rs"
  shows "consistent_on rs"
  unfolding consistent_on_def
proof (intro ballI impI)
  fix a b c
  assume a: "a \<in> set rs" and b: "b \<in> set rs" and c: "c \<in> set rs"
    and le: "compareRegions a b \<le> 0 \<and> compareRegions b c \<le> 0"
  from assms a b c have
    n1: "\<bar>topY a - topY b\<bar> \<le> 6 \<and> \<bar>topY b - topY c\<bar> \<le> 6 \<longrightarrow> \<bar>topY a - topY c\<bar> \<le> 6" and
    n2: "\<bar>topY b - topY a\<bar> \<le> 6 \<and> \<bar>topY a - topY c\<bar> \<le> 6 \<longrightarrow> \<bar>topY b - topY c\<bar> \<le> 6" and
    n3: "\<bar>topY a - topY c\<bar> \<le> 6 \<and> \<bar>topY c - topY b\<bar> \<le> 6 \<longrightarrow> \<bar>topY a - topY b\<bar> \<le> 6"
    unfolding rows_separated_def by blast+
  from le n1 n2 n3 show "compareRegions a c \<le> 0"
    unfolding compareRegions_def Let_def
    by (auto split: if_splits)
qed

section \<open>Properties of the word wrap\<close>

lemma joinWords_snoc: "grp \<noteq> [] \<Longrightarrow> joinWords (grp @ [w]) = joinWords grp @ '' '' @ w"
  by (induction grp rule: joinWords.induct) simp_all

lemma joinWords_empty: "\<forall>w \<in> set grp. w \<noteq> [] \<Longrightarrow> (joinWords grp = []) = (grp = [])"
  by (induction grp rule: joinWords.induct) simp_all

lemma wrapLoop_groups:
  "\<forall>w \<in> set (grp @ ws). w \<noteq> [] \<Longrightarrow>
     wrapLoop m maxWidth (map joinWords out) (joinWords grp) ws
       = map joinWords (groupLoop m maxWidth out grp ws)"
proof (induction ws arbitrary: out grp)
  case Nil
  then show ?case by (simp add: joinWords_empty)
next
  case (Cons w ws)
  have e: "(joinWords grp = []) = (grp = [])"
    using Cons.prems by (simp add: joinWords_empty)
  show ?case
  proof (cases "grp = []")
    case True
    have "wrapLoop m maxWidth (map joinWords out) (joinWords [w]) ws
       = map joinWords (groupLoop m maxWidth out [w] ws)"
      by (rule Cons.IH) (use Cons.prems in simp)
    with True show ?thesis by (simp add: Let_def)
  next
    case False
    have j: "joinWords (grp @ [w]) = joinWords grp @ '' '' @ w"
      using False by (rule joinWords_snoc)
    have a: "wrapLoop m maxWidth (map joinWords (out @ [grp])) (joinWords [w]) ws
       = map joinWords (groupLoop m maxWidth (out @ [grp]) [w] ws)"
      by (rule Cons.IH) (use Cons.prems in simp)
    have b: "wrapLoop m maxWidth (map joinWords out) (joinWords (grp @ [w])) ws
       = map joinWords (groupLoop m maxWidth out (grp @ [w]) ws)"
      by (rule Cons.IH) (use Cons.prems in simp)
    show ?thesis
    proof (cases "maxWidth < m (joinWords (grp @ [w]))")
      case True
      with False e a j show ?thesis by (simp add: Let_def)
    next
      case nb: False
      with False e b j show ?thesis by (simp add: Let_def)
    qed
  qed
qed

lemma concat_groupLoop: "concat (groupLoop m maxWidth out grp ws) = concat out @ grp @ ws"
  by (induction ws arbitrary: out grp) simp_all

lemma fits_groupLoop:
  "\<forall>g \<in> set out. fits m maxWidth g \<Longrightarrow> grp = [] \<or> fits m maxWidth grp \<Longrightarrow>
     \<forall>g \<in> set (groupLoop m maxWidth out grp ws). fits m maxWidth g"
proof (induction ws arbitrary: out grp)
  case Nil
  then show ?case by auto
next
  case (Cons w ws)
  show ?case
  proof (cases "grp \<noteq> [] \<and> maxWidth < m (joinWords (grp @ [w]))")
    case True
    have "\<forall>g \<in> set (groupLoop m maxWidth (out @ [grp]) [w] ws). fits m maxWidth g"
    proof (rule Cons.IH)
      from True Cons.prems show "\<forall>g \<in> set (out @ [grp]). fits m maxWidth g" by auto
      show "[w] = [] \<or> fits m maxWidth [w]" by (simp add: fits_def)
    qed
    with True show ?thesis by simp
  next
    case False
    have "\<forall>g \<in> set (groupLoop m maxWidth out (grp @ [w]) ws). fits m maxWidth g"
    proof (rule Cons.IH)
      from Cons.prems show "\<forall>g \<in> set out. fits m maxWidth g" by simp
      from False show "grp @ [w] = [] \<or> fits m maxWidth (grp @ [w])"
        by (cases "grp = []") (simp_all add: fits_def not_less)
    qed
    with False show ?thesis by auto
  qed
qed

lemma greedy_ok_snoc:
  "greedy_ok m maxWidth (gs @ [g]) \<Longrightarrow> maxWidth < m (joinWords (g @ [hd h])) \<Longrightarrow>
     greedy_ok m maxWidth (gs @ [g, h])"
proof (induction gs)
  case Nil
  then show ?case by simp
next
  case (Cons a gs)
  then show ?case by (cases gs) simp_all
qed

lemma greedy_ok_extend:
  "g \<noteq> [] \<Longrightarrow> greedy_ok m maxWidth (gs @ [g]) \<Longrightarrow> greedy_ok m maxWidth (gs @ [g @ [w]])"
proof (induction gs)
  case Nil
  then show ?case by simp
next
  case (Cons a gs)
  then show ?case by (cases gs) simp_all
qed

lemma greedy_groupLoop:
  "greedy_ok m maxWidth (out @ [grp]) \<Longrightarrow> (grp = [] \<longrightarrow> out = []) \<Longrightarrow>
     greedy_ok m maxWidth (groupLoop m maxWidth out grp ws)"
proof (induction ws arbitrary: out grp)
  case Nil
  then show ?case by auto
next
  case (Cons w ws)
  show ?case
  proof (cases "grp \<noteq> [] \<and> maxWidth < m (joinWords (grp @ [w]))")
    case True
    have "greedy_ok m maxWidth (groupLoop m maxWidth (out @ [grp]) [w] ws)"
    proof (rule Cons.IH)
      from True Cons.prems(1) show "greedy_ok m maxWidth ((out @ [grp]) @ [[w]])"
        using greedy_ok_snoc [of m maxWidth out grp "[w]"] by simp
      show "[w] = [] \<longrightarrow> out @ [grp] = []" by simp
    qed
    with True show ?thesis by simp
  next
    case False
    have "greedy_ok m maxWidth (groupLoop m maxWidth out (grp @ [w]) ws)"
    proof (rule Cons.IH)
      show "greedy_ok m maxWidth (out @ [grp @ [w]])"
      proof (cases "grp = []")
        case True
        with Cons.prems(2) show ?thesis by simp
      next
        case ne: False
        from ne Cons.prems(1) show ?thesis by (rule greedy_ok_extend)
      qed
      from Cons.prems(2) show "grp @ [w] = [] \<longrightarrow> out = []" by simp
    qed
    with False show ?thesis by auto
  qed
qed

lemma splitOn_nonempty: "splitOn d u \<noteq> []"
  by (induction u) (simp_all split: list.splits)

lemma set_splitOn: "w \<in> set (splitOn d u) \<Longrightarrow> d \<notin> set w \<and> set w \<subseteq> set u"
proof (induction u arbitrary: w)
  case Nil
  then show ?case by simp
next
  case (Cons c cs)
  show ?case
  proof (cases "c = d")
    case True
    with Cons show ?thesis by auto
  next
    case False
    obtain p ps where sp: "splitOn d cs = p # ps"
      using splitOn_nonempty [of d cs] by (cases "splitOn d cs") auto
    with False Cons.prems have "w = c # p \<or> w \<in> set ps" by simp
    then show ?thesis
    proof
      assume w: "w = c # p"
      have "d \<notin> set p \<and> set p \<subseteq> set cs" by (rule Cons.IH) (simp add: sp)
      with w False show ?thesis by auto
    next
      assume "w \<in> set ps"
      then have "d \<notin> set w \<and> set w \<subseteq> set cs" by (intro Cons.IH) (simp add: sp)
      then show ?thesis by auto
    qed
  qed
qed

lemma concat_splitOn: "concat (splitOn d u) = filter (\<lambda>c. c \<noteq> d) u"
proof (induction u)
  case Nil
  show ?case by simp
next
  case (Cons c cs)
  obtain p ps where sp: "splitOn d cs = p # ps"
    using splitOn_nonempty [of d cs] by (cases "splitOn d cs") auto
  with Cons show ?case by simp
qed

lemma concat_filter_nonempty: "concat (filter (\<lambda>w. w \<noteq> []) ws) = concat ws"
  by (induction ws) simp_all

lemma filter_dropWhile_neg: "filter (\<lambda>c. \<not> P c) (dropWhile P cs) = filter (\<lambda>c. \<not> P c) cs"
  by (induction cs) simp_all

lemma collapseWs_only_space: "c \<in> set (collapseWs s) \<Longrightarrow> is_ws c \<Longrightarrow> c = CHR '' ''"
  by (induction s rule: collapseWs.induct) (auto split: if_splits)

lemma is_ws_space: "is_ws CHR '' ''"
  by (simp add: is_ws_def)

lemma filter_collapseWs:
  "filter (\<lambda>c. \<not> is_ws c) (collapseWs s) = filter (\<lambda>c. \<not> is_ws c) s"
  by (induction s rule: collapseWs.induct) (simp_all add: filter_dropWhile_neg is_ws_space)

lemma filter_trim: "filter (\<lambda>c. \<not> is_ws c) (trim v) = filter (\<lambda>c. \<not> is_ws c) v"
proof -
  have "filter (\<lambda>c. \<not> is_ws c) (trim v)
      = rev (filter (\<lambda>c. \<not> is_ws c) (dropWhile is_ws (rev (dropWhile is_ws v))))"
    by (simp only: trim_def rev_filter)
  also have "\<dots> = rev (filter (\<lambda>c. \<not> is_ws c) (rev (dropWhile is_ws v)))"
    by (simp only: filter_dropWhile_neg)
  also have "\<dots> = filter (\<lambda>c. \<not> is_ws c) (dropWhile is_ws v)"
    by (simp only: rev_filter rev_rev_ident)
  also have "\<dots> = filter (\<lambda>c. \<not> is_ws c) v"
    by (simp only: filter_dropWhile_neg)
  finally show ?thesis .
qed

lemma set_trim: "set (trim v) \<subseteq> set v"
proof
  fix c assume "c \<in> set (trim v)"
  then have "c \<in> set (dropWhile is_ws (rev (dropWhile is_ws v)))"
    by (simp add: trim_def)
  then have "c \<in> set (rev (dropWhile is_ws v))" by (rule set_dropWhileD)
  then have "c \<in> set (dropWhile is_ws v)" by simp
  then show "c \<in> set v" by (rule set_dropWhileD)
qed

lemma wordsOfText_words:
  "w \<in> set (wordsOfText t) \<Longrightarrow> w \<noteq> [] \<and> (\<forall>c \<in> set w. \<not> is_ws c)"
proof -
  assume "w \<in> set (wordsOfText t)"
  then have ne: "w \<noteq> []" and sp: "w \<in> set (splitOn CHR '' '' (trim (collapseWs t)))"
    by (simp_all add: wordsOfText_def)
  from set_splitOn [OF sp] have a: "CHR '' '' \<notin> set w" and b: "set w \<subseteq> set (trim (collapseWs t))"
    by simp_all
  have "\<forall>c \<in> set w. \<not> is_ws c"
  proof
    fix c assume c: "c \<in> set w"
    with b set_trim have "c \<in> set (collapseWs t)" by blast
    then have "is_ws c \<Longrightarrow> c = CHR '' ''" by (rule collapseWs_only_space)
    with a c show "\<not> is_ws c" by auto
  qed
  with ne show ?thesis by simp
qed

lemma concat_wordsOfText: "concat (wordsOfText t) = filter (\<lambda>c. \<not> is_ws c) t"
proof -
  let ?u = "trim (collapseWs t)"
  have "concat (wordsOfText t) = filter (\<lambda>c. c \<noteq> CHR '' '') ?u"
    by (simp only: wordsOfText_def concat_filter_nonempty concat_splitOn)
  also have "\<dots> = filter (\<lambda>c. \<not> is_ws c) ?u"
  proof (rule filter_cong [OF refl])
    fix c assume "c \<in> set ?u"
    with set_trim have "c \<in> set (collapseWs t)" by blast
    then have "is_ws c \<Longrightarrow> c = CHR '' ''" by (rule collapseWs_only_space)
    moreover have "is_ws CHR '' ''" by (rule is_ws_space)
    ultimately show "(c \<noteq> CHR '' '') = (\<not> is_ws c)" by auto
  qed
  also have "\<dots> = filter (\<lambda>c. \<not> is_ws c) t"
    by (simp only: filter_trim filter_collapseWs)
  finally show ?thesis .
qed

lemma wordsOfText_blank: "(wordsOfText t = []) = (\<forall>c \<in> set t. is_ws c)"
proof
  assume "wordsOfText t = []"
  then have "filter (\<lambda>c. \<not> is_ws c) t = []"
    using concat_wordsOfText [of t] by simp
  then show "\<forall>c \<in> set t. is_ws c" by (simp add: filter_empty_conv)
next
  assume "\<forall>c \<in> set t. is_ws c"
  then have "concat (wordsOfText t) = []"
    by (simp add: concat_wordsOfText filter_empty_conv)
  then have "\<forall>w \<in> set (wordsOfText t). w = []" by simp
  with wordsOfText_words [of _ t] show "wordsOfText t = []"
    by (cases "wordsOfText t") auto
qed

lemma wrapLines_groups:
  "wrapLines m t maxWidth = map joinWords (lineGroups m maxWidth (wordsOfText t))"
proof -
  have "\<forall>w \<in> set ([] @ wordsOfText t). w \<noteq> []"
    using wordsOfText_words [of _ t] by simp
  from wrapLoop_groups [OF this, of m maxWidth "[]"]
  show ?thesis by (simp add: wrapLines_def lineGroups_def)
qed


lemma runsBy_Nil: "runsBy P [] = []"
  by (subst runsBy.simps) simp

lemma runsBy_sep: "P c \<Longrightarrow> runsBy P (c # cs) = runsBy P cs"
  by (subst runsBy.simps, subst (2) runsBy.simps) simp

lemma runsBy_start:
  "\<not> P c \<Longrightarrow>
     runsBy P (c # cs) = (c # takeWhile (\<lambda>x. \<not> P x) cs) # runsBy P (dropWhile (\<lambda>x. \<not> P x) cs)"
  by (subst runsBy.simps) simp

lemma runsBy_Cons:
  "\<not> P c \<Longrightarrow>
     runsBy P (c # X) =
       (case X of
          [] \<Rightarrow> [[c]]
        | d # ds \<Rightarrow> if P d then [c] # runsBy P X
                   else (c # hd (runsBy P X)) # tl (runsBy P X))"
  by (cases X) (simp_all add: runsBy_start runsBy_Nil)


lemma runsBy_Cons2:
  "\<not> P c \<Longrightarrow> X = d # ds \<Longrightarrow>
     runsBy P (c # X) =
       (if P d then [c] # runsBy P X else (c # hd (runsBy P X)) # tl (runsBy P X))"
  by (simp add: runsBy_Cons)

lemma splitOn_Cons_ne:
  "c \<noteq> d \<Longrightarrow> splitOn d (c # cs) = (c # hd (splitOn d cs)) # tl (splitOn d cs)"
  using splitOn_nonempty [of d cs] by (cases "splitOn d cs") simp_all

lemma filter_splitOn_runs:
  "filter (\<lambda>w. w \<noteq> []) (splitOn d u) = runsBy (\<lambda>c. c = d) u"
proof (induction u)
  case Nil
  show ?case by (simp add: runsBy_Nil)
next
  case (Cons c cs)
  show ?case
  proof (cases "c = d")
    case True
    with Cons show ?thesis by (simp add: runsBy_sep)
  next
    case False
    note ne = splitOn_nonempty [of d cs]
    show ?thesis
    proof (cases cs)
      case Nil
      with False show ?thesis by (simp add: runsBy_Cons)
    next
      case (Cons e es)
      show ?thesis
      proof (cases "e = d")
        case True
        with Cons have h: "hd (splitOn d cs) = []" by simp
        with Cons.IH ne have "filter (\<lambda>w. w \<noteq> []) (tl (splitOn d cs)) = runsBy (\<lambda>c. c = d) cs"
          by (cases "splitOn d cs") simp_all
        with False True Cons h show ?thesis
          by (simp add: splitOn_Cons_ne runsBy_Cons del: splitOn.simps)
      next
        case e: False
        with Cons have h: "hd (splitOn d cs) \<noteq> []"
          using splitOn_nonempty [of d es] by (cases "splitOn d es") simp_all
        with Cons.IH ne have "hd (splitOn d cs) # filter (\<lambda>w. w \<noteq> []) (tl (splitOn d cs))
            = runsBy (\<lambda>c. c = d) cs"
          by (cases "splitOn d cs") simp_all
        then have "hd (runsBy (\<lambda>c. c = d) cs) = hd (splitOn d cs)"
          and "tl (runsBy (\<lambda>c. c = d) cs) = filter (\<lambda>w. w \<noteq> []) (tl (splitOn d cs))"
          by (metis list.sel(1), metis list.sel(3))
        with False e Cons show ?thesis
          by (simp add: splitOn_Cons_ne runsBy_Cons del: splitOn.simps)
      qed
    qed
  qed
qed

lemma runsBy_cong: "\<forall>c \<in> set u. P c = Q c \<Longrightarrow> runsBy P u = runsBy Q u"
proof (induction u)
  case Nil
  show ?case by (simp add: runsBy_Nil)
next
  case (Cons c cs)
  then have ih: "runsBy P cs = runsBy Q cs" by simp
  from Cons.prems have pq: "P c = Q c" by simp
  show ?case
  proof (cases "P c")
    case True
    with pq ih show ?thesis by (simp add: runsBy_sep)
  next
    case False
    with pq have nq: "\<not> Q c" by simp
    show ?thesis
    proof (cases cs)
      case Nil
      with False nq show ?thesis by (simp add: runsBy_Cons)
    next
      case (Cons e es)
      with Cons.prems have "P e = Q e" by simp
      with False nq ih Cons show ?thesis by (simp add: runsBy_Cons)
    qed
  qed
qed

lemma runsBy_dropWhile: "runsBy P (dropWhile P v) = runsBy P v"
  by (induction v) (simp_all add: runsBy_sep)

lemma runsBy_snoc_sep: "P c \<Longrightarrow> runsBy P (w @ [c]) = runsBy P w"
proof (induction w)
  case Nil
  then show ?case by (simp add: runsBy_sep)
next
  case (Cons x xs)
  then have ih: "runsBy P (xs @ [c]) = runsBy P xs" by simp
  show ?case
  proof (cases "P x")
    case True
    with ih show ?thesis by (simp add: runsBy_sep)
  next
    case False
    show ?thesis
    proof (cases xs)
      case Nil
      with False Cons.prems show ?thesis by (simp add: runsBy_Cons runsBy_sep runsBy_Nil)
    next
      case (Cons e es)
      with False ih show ?thesis by (simp add: runsBy_Cons)
    qed
  qed
qed

lemma runsBy_append_seps: "\<forall>c \<in> set b. P c \<Longrightarrow> runsBy P (a @ b) = runsBy P a"
proof (induction b rule: rev_induct)
  case Nil
  show ?case by simp
next
  case (snoc c b)
  have "runsBy P (a @ b @ [c]) = runsBy P ((a @ b) @ [c])" by simp
  also have "\<dots> = runsBy P (a @ b)" using snoc.prems by (intro runsBy_snoc_sep) simp
  also have "\<dots> = runsBy P a" using snoc by simp
  finally show ?case .
qed

lemma runsBy_trim: "runsBy is_ws (trim v) = runsBy is_ws v"
proof -
  let ?t = "dropWhile is_ws v"
  have split: "?t = rev (dropWhile is_ws (rev ?t)) @ rev (takeWhile is_ws (rev ?t))"
    by (metis rev_append rev_rev_ident takeWhile_dropWhile_id)
  have "\<forall>c \<in> set (rev (takeWhile is_ws (rev ?t))). is_ws c"
    by (auto dest: set_takeWhileD)
  then have "runsBy is_ws (rev (dropWhile is_ws (rev ?t)) @ rev (takeWhile is_ws (rev ?t)))
      = runsBy is_ws (rev (dropWhile is_ws (rev ?t)))"
    by (rule runsBy_append_seps)
  with split have "runsBy is_ws ?t = runsBy is_ws (trim v)"
    by (simp only: trim_def)
  then show ?thesis by (simp only: runsBy_dropWhile)
qed

lemma collapseWs_Nil_iff: "(collapseWs s = []) = (s = [])"
  by (cases s) simp_all

lemma collapseWs_hd: "s \<noteq> [] \<Longrightarrow> is_ws (hd (collapseWs s)) = is_ws (hd s)"
  by (cases s) (simp_all add: is_ws_space)

lemma runsBy_collapseWs: "runsBy is_ws (collapseWs s) = runsBy is_ws s"
proof (induction s rule: collapseWs.induct)
  case 1
  show ?case by simp
next
  case (2 c cs)
  show ?case
  proof (cases "is_ws c")
    case True
    with 2 have "runsBy is_ws (collapseWs (dropWhile is_ws cs)) = runsBy is_ws (dropWhile is_ws cs)"
      by simp
    with True show ?thesis by (simp add: runsBy_sep is_ws_space runsBy_dropWhile)
  next
    case False
    with 2 have ih: "runsBy is_ws (collapseWs cs) = runsBy is_ws cs" by simp
    show ?thesis
    proof (cases cs)
      case Nil
      with False show ?thesis by simp
    next
      case (Cons e es)
      then have ne: "collapseWs cs \<noteq> []" by (simp add: collapseWs_Nil_iff)
      then obtain e' es' where c': "collapseWs cs = e' # es'" by (cases "collapseWs cs") auto
      have ws: "is_ws e' = is_ws e" using collapseWs_hd [of cs] Cons c' by simp
      have l: "collapseWs (c # cs) = c # collapseWs cs" using False by simp
      have "runsBy is_ws (c # collapseWs cs) =
          (if is_ws e' then [c] # runsBy is_ws (collapseWs cs)
           else (c # hd (runsBy is_ws (collapseWs cs))) # tl (runsBy is_ws (collapseWs cs)))"
        using False c' by (rule runsBy_Cons2)
      moreover have "runsBy is_ws (c # cs) =
          (if is_ws e then [c] # runsBy is_ws cs
           else (c # hd (runsBy is_ws cs)) # tl (runsBy is_ws cs))"
        using False Cons by (rule runsBy_Cons2)
      ultimately show ?thesis by (simp only: l ih ws)
    qed
  qed
qed

lemma wordsOfText_runs: "wordsOfText t = blankFreeRuns t"
proof -
  let ?u = "trim (collapseWs t)"
  have "wordsOfText t = runsBy (\<lambda>c. c = CHR '' '') ?u"
    by (simp only: wordsOfText_def filter_splitOn_runs)
  also have "\<dots> = runsBy is_ws ?u"
  proof (rule runsBy_cong, rule ballI)
    fix c assume "c \<in> set ?u"
    with set_trim have "c \<in> set (collapseWs t)" by blast
    then have "is_ws c \<Longrightarrow> c = CHR '' ''" by (rule collapseWs_only_space)
    with is_ws_space show "(c = CHR '' '') = is_ws c" by auto
  qed
  also have "\<dots> = runsBy is_ws t" by (simp only: runsBy_trim runsBy_collapseWs)
  finally show ?thesis by (simp only: blankFreeRuns_def)
qed

lemma prefixes_fit_groupLoop:
  "\<forall>g \<in> set out. prefixes_fit m maxWidth g \<Longrightarrow> prefixes_fit m maxWidth grp \<Longrightarrow>
     \<forall>g \<in> set (groupLoop m maxWidth out grp ws). prefixes_fit m maxWidth g"
proof (induction ws arbitrary: out grp)
  case Nil
  then show ?case by auto
next
  case (Cons w ws)
  show ?case
  proof (cases "grp \<noteq> [] \<and> maxWidth < m (joinWords (grp @ [w]))")
    case True
    have "\<forall>g \<in> set (groupLoop m maxWidth (out @ [grp]) [w] ws). prefixes_fit m maxWidth g"
    proof (rule Cons.IH)
      from Cons.prems show "\<forall>g \<in> set (out @ [grp]). prefixes_fit m maxWidth g" by auto
      show "prefixes_fit m maxWidth [w]" by (auto simp: prefixes_fit_def)
    qed
    with True show ?thesis by simp
  next
    case False
    have "\<forall>g \<in> set (groupLoop m maxWidth out (grp @ [w]) ws). prefixes_fit m maxWidth g"
    proof (rule Cons.IH)
      from Cons.prems show "\<forall>g \<in> set out. prefixes_fit m maxWidth g" by simp
      show "prefixes_fit m maxWidth (grp @ [w])"
        unfolding prefixes_fit_def
      proof (intro allI impI)
        fix k assume k: "2 \<le> k \<and> k \<le> length (grp @ [w])"
        show "m (joinWords (take k (grp @ [w]))) \<le> maxWidth"
        proof (cases "k \<le> length grp")
          case True
          with k Cons.prems(2) show ?thesis by (simp add: prefixes_fit_def)
        next
          case kf: False
          with k have kk: "k = Suc (length grp)" by simp
          with k have "grp \<noteq> []" by auto
          with False have "m (joinWords (grp @ [w])) \<le> maxWidth" by (simp add: not_less)
          with kk show ?thesis by simp
        qed
      qed
    qed
    with False show ?thesis by auto
  qed
qed

lemma lineGroups_prefixes_fit:
  "\<forall>g \<in> set (lineGroups m maxWidth ws). prefixes_fit m maxWidth g"
  unfolding lineGroups_def by (rule prefixes_fit_groupLoop) (auto simp: prefixes_fit_def)

lemma lineGroups_props:
  fixes m :: "string \<Rightarrow> 'w::linorder"
  shows "concat (lineGroups m maxWidth ws) = ws"
    and "\<forall>g \<in> set (lineGroups m maxWidth ws). fits m maxWidth g"
    and "greedy_ok m maxWidth (lineGroups m maxWidth ws)"
proof -
  show "concat (lineGroups m maxWidth ws) = ws"
    by (simp add: lineGroups_def concat_groupLoop)
  show "\<forall>g \<in> set (lineGroups m maxWidth ws). fits m maxWidth g"
    unfolding lineGroups_def by (rule fits_groupLoop) simp_all
  show "greedy_ok m maxWidth (lineGroups m maxWidth ws)"
    unfolding lineGroups_def by (rule greedy_groupLoop) simp_all
qed

lemma wide_line_single_word:
  fixes m :: "string \<Rightarrow> 'w::linorder"
  assumes l: "l \<in> set (wrapLines m t maxWidth)" and wide: "maxWidth < m l"
  shows "l \<in> set (wordsOfText t)"
proof -
  from l obtain g where g: "g \<in> set (lineGroups m maxWidth (wordsOfText t))"
    and lg: "l = joinWords g"
    by (auto simp: wrapLines_groups)
  from g lineGroups_props(2) have "fits m maxWidth g" by blast
  with wide lg have "length g = 1" by (auto simp: fits_def)
  then obtain w where w: "g = [w]" by (cases g) auto
  with g have "w \<in> set (concat (lineGroups m maxWidth (wordsOfText t)))"
    by (force simp: set_concat)
  with lg w show ?thesis by (simp add: lineGroups_props(1))
qed

lemma wrapLines_empty_iff:
  fixes m :: "string \<Rightarrow> 'w::linorder"
  shows "(wrapLines m t maxWidth = []) = (\<forall>c \<in> set t. is_ws c)"
proof -
  have "(wrapLines m t maxWidth = []) = (lineGroups m maxWidth (wordsOfText t) = [])"
    by (simp add: wrapLines_groups)
  also have "\<dots> = (wordsOfText t = [])"
  proof
    assume "lineGroups m maxWidth (wordsOfText t) = []"
    then show "wordsOfText t = []"
      using lineGroups_props(1) [of m maxWidth "wordsOfText t"] by simp
  next
    assume "wordsOfText t = []"
    then show "lineGroups m maxWidth (wordsOfText t) = []"
      by (simp add: lineGroups_def)
  qed
  also have "\<dots> = (\<forall>c \<in> set t. is_ws c)" by (rule wordsOfText_blank)
  finally show ?thesis .
qed

text \<open>
  C4. For every text and every measure: the words are exactly the maximal runs of
  characters that are not white space, in order (runs of white space of any kind and
  length separate, white space at the ends is dropped); so they are non-empty and free
  of white space, and together they are the text without its white space; the result
  has no line exactly when the text is empty or white space only; the lines are the
  words in order, grouped and joined by single spaces, no word split and none lost;
  every line either measures at most maxW or consists of one word; within a line every
  prefix of two or more words measures at most maxW, and a line together with the first
  word of the next line measures more than maxW, so that a line ends exactly at the
  first word that overflows; hence a line that measures more than maxW is a single
  word standing alone.
\<close>

theorem wrapLines_greedy:
  fixes m :: "string \<Rightarrow> 'w::linorder"
  shows "wordsOfText t = blankFreeRuns t
    \<and> (\<forall>g \<in> set (lineGroups m maxWidth (wordsOfText t)).
          \<forall>k. 2 \<le> k \<and> k \<le> length g \<longrightarrow> m (joinWords (take k g)) \<le> maxWidth)
    \<and> (\<forall>w \<in> set (wordsOfText t). w \<noteq> [] \<and> (\<forall>c \<in> set w. \<not> is_ws c))
    \<and> concat (wordsOfText t) = filter (\<lambda>c. \<not> is_ws c) t
    \<and> ((wrapLines m t maxWidth = []) = (\<forall>c \<in> set t. is_ws c))
    \<and> wrapLines m t maxWidth = map joinWords (lineGroups m maxWidth (wordsOfText t))
    \<and> concat (lineGroups m maxWidth (wordsOfText t)) = wordsOfText t
    \<and> (\<forall>g \<in> set (lineGroups m maxWidth (wordsOfText t)).
          g \<noteq> [] \<and> (m (joinWords g) \<le> maxWidth \<or> length g = 1))
    \<and> greedy_ok m maxWidth (lineGroups m maxWidth (wordsOfText t))
    \<and> (\<forall>l \<in> set (wrapLines m t maxWidth). maxWidth < m l \<longrightarrow> l \<in> set (wordsOfText t))"
proof (intro conjI)
  show "wordsOfText t = blankFreeRuns t" by (rule wordsOfText_runs)
  show "\<forall>g \<in> set (lineGroups m maxWidth (wordsOfText t)).
          \<forall>k. 2 \<le> k \<and> k \<le> length g \<longrightarrow> m (joinWords (take k g)) \<le> maxWidth"
    using lineGroups_prefixes_fit [of m maxWidth "wordsOfText t"]
    by (simp only: prefixes_fit_def)
  show "\<forall>w \<in> set (wordsOfText t). w \<noteq> [] \<and> (\<forall>c \<in> set w. \<not> is_ws c)"
    using wordsOfText_words by blast
  show "concat (wordsOfText t) = filter (\<lambda>c. \<not> is_ws c) t"
    by (rule concat_wordsOfText)
  show "(wrapLines m t maxWidth = []) = (\<forall>c \<in> set t. is_ws c)"
    by (rule wrapLines_empty_iff)
  show "wrapLines m t maxWidth = map joinWords (lineGroups m maxWidth (wordsOfText t))"
    by (rule wrapLines_groups)
  show "concat (lineGroups m maxWidth (wordsOfText t)) = wordsOfText t"
    by (rule lineGroups_props(1))
  show "\<forall>g \<in> set (lineGroups m maxWidth (wordsOfText t)).
          g \<noteq> [] \<and> (m (joinWords g) \<le> maxWidth \<or> length g = 1)"
    using lineGroups_props(2) [of m maxWidth "wordsOfText t"] by (simp add: fits_def)
  show "greedy_ok m maxWidth (lineGroups m maxWidth (wordsOfText t))"
    by (rule lineGroups_props(3))
  show "\<forall>l \<in> set (wrapLines m t maxWidth). maxWidth < m l \<longrightarrow> l \<in> set (wordsOfText t)"
    using wide_line_single_word by blast
qed

theorem wrapLines_greedy_witness:
  "wrapLines length ''  the quick   brown fox jumps '' (9::nat)
     = [''the quick'', ''brown fox'', ''jumps'']
   \<and> wrapLines length ''extraordinary a'' (5::nat) = [''extraordinary'', ''a'']
   \<and> (5::nat) < length ''extraordinary''
   \<and> ''extraordinary'' \<in> set (wordsOfText ''extraordinary a'')
   \<and> wordsOfText (''uno'' @ [tab, nl] @ ''dos'') = [''uno'', ''dos'']
   \<and> blankFreeRuns (''uno'' @ [tab, nl] @ ''dos'') = [''uno'', ''dos'']"
proof -
  have e: "wordsOfText (''uno'' @ [tab, nl] @ ''dos'') = [''uno'', ''dos'']"
    by code_simp
  have f: "blankFreeRuns (''uno'' @ [tab, nl] @ ''dos'') = [''uno'', ''dos'']"
    using wrapLines_greedy [of "''uno'' @ [tab, nl] @ ''dos''" length "9::nat"] e
    by (simp only: simp_thms)
  have a: "wrapLines length ''  the quick   brown fox jumps '' (9::nat)
     = map joinWords (lineGroups length 9 (wordsOfText ''  the quick   brown fox jumps ''))"
    using wrapLines_greedy [of "''  the quick   brown fox jumps ''" length 9] by blast
  have b: "map joinWords (lineGroups length (9::nat) (wordsOfText ''  the quick   brown fox jumps ''))
     = [''the quick'', ''brown fox'', ''jumps'']"
    by code_simp
  have c: "wrapLines length ''extraordinary a'' (5::nat) = [''extraordinary'', ''a'']"
    by code_simp
  have "\<forall>l \<in> set (wrapLines length ''extraordinary a'' (5::nat)).
      5 < length l \<longrightarrow> l \<in> set (wordsOfText ''extraordinary a'')"
    using wrapLines_greedy [of "''extraordinary a''" length 5] by blast
  with c have d: "''extraordinary'' \<in> set (wordsOfText ''extraordinary a'')" by simp
  from a b c d e f show ?thesis by simp
qed

section \<open>Properties of the overlay rendering\<close>

lemma shrink_less: "10 < f \<Longrightarrow> shrink f < f"
  by (simp add: shrink_def)

lemma startFont_floor: "startFont maxH = max 10 \<lfloor>real_of_int maxH * 0.75\<rfloor>"
proof -
  have "real_of_int maxH * 0.75 = real_of_int (maxH * 3) / real_of_int 4" by simp
  then have "\<lfloor>real_of_int maxH * 0.75\<rfloor> = (maxH * 3) div 4"
    by (simp only: floor_divide_of_int_eq)
  then show ?thesis by (simp add: startFont_def)
qed

lemma shrink_floor: "shrink f = \<lfloor>real_of_int f * 0.9\<rfloor>"
proof -
  have "real_of_int f * 0.9 = real_of_int (f * 9) / real_of_int 10" by simp
  then have "\<lfloor>real_of_int f * 0.9\<rfloor> = (f * 9) div 10"
    by (simp only: floor_divide_of_int_eq)
  then show ?thesis by (simp add: shrink_def)
qed

lemma lineHeightOf_ceiling: "lineHeightOf f = \<lceil>real_of_int f * 1.25\<rceil>"
proof -
  have "real_of_int f * 1.25 = real_of_int (f * 5) / real_of_int 4" by simp
  then have "\<lceil>real_of_int f * 1.25\<rceil> = - (- (f * 5) div 4)"
    by (simp only: ceiling_divide_eq_div)
  then show ?thesis by (simp add: lineHeightOf_def)
qed

lemma padOf_floor: "padOf w h = \<lfloor>real_of_int (min w h) * 0.08\<rfloor>"
proof -
  have "real_of_int (min w h) * 0.08 = real_of_int (min w h * 8) / real_of_int 100" by simp
  then have "\<lfloor>real_of_int (min w h) * 0.08\<rfloor> = (min w h * 8) div 100"
    by (simp only: floor_divide_of_int_eq)
  then show ?thesis by (simp add: padOf_def)
qed

lemma fontTrace_stop: "stops mt t maxW maxH f \<Longrightarrow> fontTrace mt t maxW maxH f = [f]"
  by (subst fontTrace.simps) (simp add: stops_def Let_def)

lemma fontTrace_step:
  "\<not> stops mt t maxW maxH f \<Longrightarrow>
     fontTrace mt t maxW maxH f = f # fontTrace mt t maxW maxH (shrink f)"
  by (subst fontTrace.simps) (simp add: stops_def Let_def)

lemma fontFit_stop:
  "stops mt t maxW maxH f \<Longrightarrow>
     fontFit mt t maxW maxH f = (f, wrapLines (mt f) t (real_of_int maxW), lineHeightOf f)"
  by (subst fontFit.simps) (simp add: stops_def Let_def)

lemma fontFit_step:
  "\<not> stops mt t maxW maxH f \<Longrightarrow> fontFit mt t maxW maxH f = fontFit mt t maxW maxH (shrink f)"
  by (subst fontFit.simps) (simp add: stops_def Let_def)

lemma fontTrace_induct [consumes 0, case_names stop step]:
  assumes "\<And>f. stops mt t maxW maxH f \<Longrightarrow> P f"
    and "\<And>f. \<not> stops mt t maxW maxH f \<Longrightarrow> 10 < f \<Longrightarrow> P (shrink f) \<Longrightarrow> P f"
  shows "P f"
proof (induction "nat f" arbitrary: f rule: less_induct)
  case less
  show ?case
  proof (cases "stops mt t maxW maxH f")
    case True
    then show ?thesis by (rule assms(1))
  next
    case False
    then have f: "10 < f" by (simp add: stops_def)
    then have "shrink f < f" by (rule shrink_less)
    with f have "nat (shrink f) < nat f" by simp
    then have "P (shrink f)" by (rule less)
    with False f show ?thesis by (rule assms(2))
  qed
qed

lemma fontTrace_nonempty: "fontTrace mt t maxW maxH f \<noteq> []"
  by (cases "stops mt t maxW maxH f") (simp_all add: fontTrace_stop fontTrace_step)

lemma fontTrace_hd: "hd (fontTrace mt t maxW maxH f) = f"
  by (cases "stops mt t maxW maxH f") (simp_all add: fontTrace_stop fontTrace_step)

lemma fontTrace_last_stops: "stops mt t maxW maxH (last (fontTrace mt t maxW maxH f))"
  by (induction f rule: fontTrace_induct [of mt t maxW maxH])
    (simp_all add: fontTrace_stop fontTrace_step fontTrace_nonempty)

lemma fontFit_last:
  "fontFit mt t maxW maxH f =
     (last (fontTrace mt t maxW maxH f),
      wrapLines (mt (last (fontTrace mt t maxW maxH f))) t (real_of_int maxW),
      lineHeightOf (last (fontTrace mt t maxW maxH f)))"
  by (induction f rule: fontTrace_induct [of mt t maxW maxH])
    (simp_all add: fontTrace_stop fontTrace_step fontFit_stop fontFit_step fontTrace_nonempty)

lemma fontTrace_chain:
  "successively (\<lambda>a b. \<not> stops mt t maxW maxH a \<and> b = shrink a \<and> b < a)
     (fontTrace mt t maxW maxH f)"
proof (induction f rule: fontTrace_induct [of mt t maxW maxH])
  case (stop f)
  then show ?case by (simp add: fontTrace_stop)
next
  case (step f)
  from step(2) have "shrink f < f" by (rule shrink_less)
  with step show ?case
    by (simp add: fontTrace_step successively_Cons fontTrace_nonempty fontTrace_hd)
qed

lemma shrink_real_le: "real_of_int (shrink f) \<le> real_of_int f * (9 / 10)"
proof -
  have "real_of_int \<lfloor>real_of_int f * 0.9\<rfloor> \<le> real_of_int f * 0.9"
    by (rule of_int_floor_le)
  then show ?thesis by (simp add: shrink_floor)
qed

lemma fontTrace_length_le:
  "real_of_int f * (9 / 10) ^ k \<le> 10 \<Longrightarrow> length (fontTrace mt t maxW maxH f) \<le> Suc k"
proof (induction k arbitrary: f)
  case 0
  then have "f \<le> 10" by simp
  then have "stops mt t maxW maxH f" by (simp add: stops_def)
  then show ?case by (simp add: fontTrace_stop)
next
  case (Suc k)
  show ?case
  proof (cases "stops mt t maxW maxH f")
    case True
    then show ?thesis by (simp add: fontTrace_stop)
  next
    case False
    have "real_of_int (shrink f) * (9 / 10) ^ k \<le> (real_of_int f * (9 / 10)) * (9 / 10) ^ k"
      by (rule mult_right_mono [OF shrink_real_le]) simp
    also have "\<dots> = real_of_int f * (9 / 10) ^ Suc k" by simp
    also have "\<dots> \<le> 10" by (rule Suc.prems)
    finally have "length (fontTrace mt t maxW maxH (shrink f)) \<le> Suc k" by (rule Suc.IH)
    with False show ?thesis by (simp add: fontTrace_step)
  qed
qed

lemma geometric_bound:
  assumes "10 \<le> f"
  shows "real_of_int f * (9 / 10) ^ nat \<lceil>ln (real_of_int f / 10) / ln (1 / 0.9)\<rceil> \<le> 10"
proof -
  let ?L = "ln (real_of_int f / 10) / ln (1 / 0.9)"
  let ?k = "nat \<lceil>?L\<rceil>"
  have b: "(1::real) / 0.9 = 10 / 9" by simp
  have lpos: "0 < ln (10 / 9 :: real)" by simp
  from assms have x1: "1 \<le> real_of_int f / 10" by simp
  then have "0 \<le> ln (real_of_int f / 10)" by (rule ln_ge_zero)
  with lpos have L0: "0 \<le> ?L" by (simp add: b)
  have "?L \<le> real_of_int \<lceil>?L\<rceil>" by (rule le_of_int_ceiling)
  also have "\<dots> = real ?k" using L0 by simp
  finally have "?L \<le> real ?k" .
  then have "ln (real_of_int f / 10) \<le> real ?k * ln (10 / 9)"
    using lpos by (simp add: b pos_divide_le_eq)
  then have "exp (ln (real_of_int f / 10)) \<le> exp (real ?k * ln (10 / 9))"
    by (simp only: exp_le_cancel_iff)
  moreover have "exp (ln (real_of_int f / 10)) = real_of_int f / 10"
    using x1 by simp
  moreover have "exp (real ?k * ln (10 / 9)) = (10 / 9 :: real) ^ ?k"
    by (simp only: exp_of_nat_mult) simp
  ultimately have "real_of_int f / 10 \<le> (10 / 9 :: real) ^ ?k" by simp
  then have "real_of_int f \<le> 10 * (10 / 9 :: real) ^ ?k" by simp
  then have "real_of_int f * (9 / 10) ^ ?k \<le> 10 * ((10 / 9 :: real) ^ ?k * (9 / 10) ^ ?k)"
    by (simp add: mult_right_mono)
  also have "(10 / 9 :: real) ^ ?k * (9 / 10) ^ ?k = 1"
    by (simp only: power_mult_distrib [symmetric]) simp
  finally show ?thesis by simp
qed

lemma fontTrace_bound:
  assumes "10 \<le> f"
  shows "int (length (fontTrace mt t maxW maxH f)) \<le> \<lceil>ln (real_of_int f / 10) / ln (1 / 0.9)\<rceil> + 1"
proof -
  let ?c = "\<lceil>ln (real_of_int f / 10) / ln (1 / 0.9)\<rceil>"
  have "length (fontTrace mt t maxW maxH f) \<le> Suc (nat ?c)"
    by (rule fontTrace_length_le) (rule geometric_bound [OF assms])
  then have "int (length (fontTrace mt t maxW maxH f)) \<le> int (nat ?c) + 1" by linarith
  moreover have "0 \<le> ?c"
  proof -
    have "(0::real) \<le> ln (real_of_int f / 10) / ln (1 / 0.9)"
      using assms by simp
    then show ?thesis by simp
  qed
  ultimately show ?thesis by simp
qed


text \<open>
  With maxH = 10 the start font is 10 and the bound of the specification is 0, yet the
  loop makes one pass: it sets the line height, wraps the text and stops.
\<close>

theorem fontFit_iterations_counterexample:
  "int (length (fontTrace charWidth ''Hola'' 84 10 (startFont 10))) = 1
   \<and> \<lceil>ln (real_of_int (startFont 10) / 10) / ln (1 / 0.9)\<rceil> = 0
   \<and> \<not> int (length (fontTrace charWidth ''Hola'' 84 10 (startFont 10)))
         \<le> \<lceil>ln (real_of_int (startFont 10) / 10) / ln (1 / 0.9)\<rceil>"
proof -
  have s: "startFont 10 = 10" by (simp add: startFont_def)
  have "stops charWidth ''Hola'' 84 10 10" by (simp add: stops_def)
  then have "fontTrace charWidth ''Hola'' 84 10 10 = [10]" by (rule fontTrace_stop)
  with s show ?thesis by simp
qed

text \<open>
  C5 (as the code has it). The loop is a total function: it terminates for every region.
  It starts at max(10, floor(maxH * 0.75)); each pass sets the line height to
  ceil(fontSize * 1.25) and wraps the text; a pass is followed by another one only if
  lines.length * lineHeight > maxH and fontSize > 10, and the next font size is then
  floor(fontSize * 0.9), strictly smaller; the last pass meets the stop condition and
  gives the result. The number of passes is at most
  ceil(log(startFont/10) / log(1/0.9)) + 1, that is, at most that many shrink steps.
\<close>

theorem fontFit_terminates:
  "startFont maxH = max 10 \<lfloor>real_of_int maxH * 0.75\<rfloor>
   \<and> hd (fontTrace mt t maxW maxH (startFont maxH)) = startFont maxH
   \<and> successively
       (\<lambda>a b. \<not> (int (length (wrapLines (mt a) t (real_of_int maxW))) * \<lceil>real_of_int a * 1.25\<rceil> \<le> maxH
                  \<or> a \<le> 10)
              \<and> b = \<lfloor>real_of_int a * 0.9\<rfloor> \<and> b < a)
       (fontTrace mt t maxW maxH (startFont maxH))
   \<and> (let g = last (fontTrace mt t maxW maxH (startFont maxH))
      in (int (length (wrapLines (mt g) t (real_of_int maxW))) * \<lceil>real_of_int g * 1.25\<rceil> \<le> maxH
            \<or> g \<le> 10)
         \<and> fontFit mt t maxW maxH (startFont maxH)
             = (g, wrapLines (mt g) t (real_of_int maxW), \<lceil>real_of_int g * 1.25\<rceil>))
   \<and> int (length (fontTrace mt t maxW maxH (startFont maxH)))
       \<le> \<lceil>ln (real_of_int (startFont maxH) / 10) / ln (1 / 0.9)\<rceil> + 1"
proof (intro conjI)
  show "startFont maxH = max 10 \<lfloor>real_of_int maxH * 0.75\<rfloor>" by (rule startFont_floor)
  show "hd (fontTrace mt t maxW maxH (startFont maxH)) = startFont maxH" by (rule fontTrace_hd)
  have st: "\<And>a. stops mt t maxW maxH a
      = (int (length (wrapLines (mt a) t (real_of_int maxW))) * \<lceil>real_of_int a * 1.25\<rceil> \<le> maxH
          \<or> a \<le> 10)"
    by (simp only: stops_def lineHeightOf_ceiling)
  show "successively
       (\<lambda>a b. \<not> (int (length (wrapLines (mt a) t (real_of_int maxW))) * \<lceil>real_of_int a * 1.25\<rceil> \<le> maxH
                  \<or> a \<le> 10)
              \<and> b = \<lfloor>real_of_int a * 0.9\<rfloor> \<and> b < a)
       (fontTrace mt t maxW maxH (startFont maxH))"
    using fontTrace_chain [of mt t maxW maxH "startFont maxH"]
    by (simp only: st shrink_floor)
  show "let g = last (fontTrace mt t maxW maxH (startFont maxH))
      in (int (length (wrapLines (mt g) t (real_of_int maxW))) * \<lceil>real_of_int g * 1.25\<rceil> \<le> maxH
            \<or> g \<le> 10)
         \<and> fontFit mt t maxW maxH (startFont maxH)
             = (g, wrapLines (mt g) t (real_of_int maxW), \<lceil>real_of_int g * 1.25\<rceil>)"
    using fontTrace_last_stops [of mt t maxW maxH "startFont maxH"]
      fontFit_last [of mt t maxW maxH "startFont maxH"]
    by (simp only: Let_def st lineHeightOf_ceiling)
  have "10 \<le> startFont maxH" by (simp add: startFont_def)
  then show "int (length (fontTrace mt t maxW maxH (startFont maxH)))
       \<le> \<lceil>ln (real_of_int (startFont maxH) / 10) / ln (1 / 0.9)\<rceil> + 1"
    by (rule fontTrace_bound)
qed

theorem fontFit_terminates_witness:
  "fontTrace charWidth ''Hola Mundo amigo mio que tal'' 84 40 (startFont 40)
     = [30, 27, 24, 21, 18, 16, 14, 12, 10]
   \<and> fontFit charWidth ''Hola Mundo amigo mio que tal'' 84 40 (startFont 40)
     = (10, [''Hola Mundo amigo'', ''mio que tal''], 13)
   \<and> (9::int) \<le> \<lceil>ln (real_of_int (startFont 40) / 10) / ln (1 / 0.9)\<rceil> + 1"
proof -
  have tr: "fontTrace charWidth ''Hola Mundo amigo mio que tal'' 84 40 (startFont 40)
     = [30, 27, 24, 21, 18, 16, 14, 12, 10]"
    by code_simp
  have ff: "fontFit charWidth ''Hola Mundo amigo mio que tal'' 84 40 (startFont 40)
     = (10, [''Hola Mundo amigo'', ''mio que tal''], 13)"
    by code_simp
  have "int (length (fontTrace charWidth ''Hola Mundo amigo mio que tal'' 84 40 (startFont 40)))
       \<le> \<lceil>ln (real_of_int (startFont 40) / 10) / ln (1 / 0.9)\<rceil> + 1"
    using fontFit_terminates [of 40 charWidth "''Hola Mundo amigo mio que tal''" 84] by blast
  with tr ff show ?thesis by simp
qed

lemma drawLines_length: "length (drawLines x0 limit lh cy lines) \<le> length lines"
  by (induction lines arbitrary: cy) simp_all

lemma drawLines_nth:
  "i < length (drawLines x0 limit lh cy lines) \<Longrightarrow>
     drawLines x0 limit lh cy lines ! i = FillText (lines ! i) x0 (cy + int i * lh)
     \<and> cy + int i * lh \<le> limit"
proof (induction lines arbitrary: cy i)
  case Nil
  then show ?case by simp
next
  case (Cons line rest)
  show ?case
  proof (cases "cy > limit")
    case True
    with Cons.prems show ?thesis by simp
  next
    case False
    show ?thesis
    proof (cases i)
      case 0
      with False show ?thesis by simp
    next
      case (Suc j)
      with False Cons.prems have "j < length (drawLines x0 limit lh (cy + lh) rest)" by simp
      then have "drawLines x0 limit lh (cy + lh) rest ! j
            = FillText (rest ! j) x0 (cy + lh + int j * lh)
          \<and> cy + lh + int j * lh \<le> limit"
        by (rule Cons.IH)
      moreover have "cy + lh + int j * lh = cy + int (Suc j) * lh"
        by (simp add: algebra_simps)
      ultimately show ?thesis using False Suc by simp
    qed
  qed
qed

lemma drawLines_stop:
  "length (drawLines x0 limit lh cy lines) < length lines \<Longrightarrow>
     limit < cy + int (length (drawLines x0 limit lh cy lines)) * lh"
proof (induction lines arbitrary: cy)
  case Nil
  then show ?case by simp
next
  case (Cons line rest)
  show ?case
  proof (cases "cy > limit")
    case True
    then show ?thesis by simp
  next
    case False
    with Cons.prems have "length (drawLines x0 limit lh (cy + lh) rest) < length rest" by simp
    then have "limit < cy + lh + int (length (drawLines x0 limit lh (cy + lh) rest)) * lh"
      by (rule Cons.IH)
    with False show ?thesis by (simp add: algebra_simps)
  qed
qed

text \<open>
  C7. The region is erased, then the lines are drawn from the first on: line i at
  (x + pad, y + pad + i * lineHeight), each drawn line with its top at most
  y + h - lineHeight; if fewer lines are drawn than there are, the first line left out
  would have had its top beyond y + h - lineHeight, and it and all later lines are
  dropped. The rendering is a total function: a text that does not fit is cut, never
  an error.
\<close>

theorem drawLines_truncates:
  "length (drawLines (x + pad) (y + h - lh) lh (y + pad) lines) \<le> length lines
   \<and> (\<forall>i < length (drawLines (x + pad) (y + h - lh) lh (y + pad) lines).
        drawLines (x + pad) (y + h - lh) lh (y + pad) lines ! i
          = FillText (lines ! i) (x + pad) (y + pad + int i * lh)
        \<and> y + pad + int i * lh \<le> y + h - lh)
   \<and> (length (drawLines (x + pad) (y + h - lh) lh (y + pad) lines) < length lines
        \<longrightarrow> y + h - lh < y + pad + int (length (drawLines (x + pad) (y + h - lh) lh (y + pad) lines)) * lh)
   \<and> renderRegion mt imgW imgH r =
       (let rc = rectOf imgW imgH (box r);
            p = padOf (rw rc) (rh rc);
            fit = fontFit mt (translated r) (max 10 (rw rc - 2 * p)) (max 10 (rh rc - 2 * p))
                    (startFont (max 10 (rh rc - 2 * p)))
        in FillRect (rx rc) (ry rc) (rw rc) (rh rc)
           # drawLines (rx rc + p) (ry rc + rh rc - snd (snd fit)) (snd (snd fit)) (ry rc + p)
               (fst (snd fit)))"
proof (intro conjI allI impI)
  show "length (drawLines (x + pad) (y + h - lh) lh (y + pad) lines) \<le> length lines"
    by (rule drawLines_length)
  show "length (drawLines (x + pad) (y + h - lh) lh (y + pad) lines) < length lines \<Longrightarrow>
      y + h - lh < y + pad + int (length (drawLines (x + pad) (y + h - lh) lh (y + pad) lines)) * lh"
    by (rule drawLines_stop)
  show "renderRegion mt imgW imgH r =
       (let rc = rectOf imgW imgH (box r);
            p = padOf (rw rc) (rh rc);
            fit = fontFit mt (translated r) (max 10 (rw rc - 2 * p)) (max 10 (rh rc - 2 * p))
                    (startFont (max 10 (rh rc - 2 * p)))
        in FillRect (rx rc) (ry rc) (rw rc) (rh rc)
           # drawLines (rx rc + p) (ry rc + rh rc - snd (snd fit)) (snd (snd fit)) (ry rc + p)
               (fst (snd fit)))"
    by (simp add: renderRegion_def Let_def split: prod.splits)
next
  fix i assume "i < length (drawLines (x + pad) (y + h - lh) lh (y + pad) lines)"
  then have a: "drawLines (x + pad) (y + h - lh) lh (y + pad) lines ! i
          = FillText (lines ! i) (x + pad) (y + pad + int i * lh)
        \<and> y + pad + int i * lh \<le> y + h - lh"
    by (rule drawLines_nth)
  from a show "drawLines (x + pad) (y + h - lh) lh (y + pad) lines ! i
          = FillText (lines ! i) (x + pad) (y + pad + int i * lh)" by (rule conjunct1)
  from a show "y + pad + int i * lh \<le> y + h - lh" by (rule conjunct2)
qed


theorem drawLines_truncates_witness:
  "drawLines (0 + 2) (0 + 30 - 12) 12 (0 + 2) [''uno'', ''dos'', ''tres'', ''cuatro'']
     = [FillText ''uno'' 2 2, FillText ''dos'' 2 14]
   \<and> (0::int) + 30 - 12 < 0 + 2 + 2 * 12
   \<and> renderRegion charWidth 200 200
        (mkDraw ''one two three four'' [pt 0 0, pt 30 0, pt 30 30, pt 0 30] ''uno dos tres cuatro'')
     = [FillRect 0 0 30 30, FillText ''uno'' 2 2, FillText ''dos'' 2 14]"
proof -
  have e: "drawLines (0 + 2) (0 + 30 - 12) 12 (0 + 2) [''uno'', ''dos'', ''tres'', ''cuatro'']
     = [FillText ''uno'' 2 2, FillText ''dos'' 2 14]"
    by simp
  have r: "renderRegion charWidth 200 200
        (mkDraw ''one two three four'' [pt 0 0, pt 30 0, pt 30 30, pt 0 30] ''uno dos tres cuatro'')
     = [FillRect 0 0 30 30, FillText ''uno'' 2 2, FillText ''dos'' 2 14]"
    by code_simp
  have "length (drawLines (0 + 2) (0 + 30 - 12) 12 (0 + 2) [''uno'', ''dos'', ''tres'', ''cuatro''])
      < length [''uno'', ''dos'', ''tres'', ''cuatro''] \<longrightarrow>
    (0::int) + 30 - 12 < 0 + 2
      + int (length (drawLines (0 + 2) (0 + 30 - 12) 12 (0 + 2) [''uno'', ''dos'', ''tres'', ''cuatro''])) * 12"
    using drawLines_truncates [of 0 2 0 30 12 "[''uno'', ''dos'', ''tres'', ''cuatro'']"] by blast
  with e r show ?thesis by simp
qed

lemma wrapLines_Nil: "wrapLines m [] maxWidth = []"
  by (simp add: wrapLines_empty_iff)

lemma renderRegion_blank:
  assumes "translated r = []"
  shows "renderRegion mt imgW imgH r =
     [FillRect (rx (rectOf imgW imgH (box r))) (ry (rectOf imgW imgH (box r)))
        (rw (rectOf imgW imgH (box r))) (rh (rectOf imgW imgH (box r)))]"
proof -
  let ?rc = "rectOf imgW imgH (box r)"
  let ?p = "padOf (rw ?rc) (rh ?rc)"
  let ?maxW = "max 10 (rw ?rc - 2 * ?p)" and ?maxH = "max 10 (rh ?rc - 2 * ?p)"
  have "(10::int) \<le> ?maxH" by (rule max.cobounded1)
  then have "0 \<le> ?maxH" by linarith
  then have "stops mt [] ?maxW ?maxH (startFont ?maxH)"
    by (simp only: stops_def wrapLines_Nil list.size of_nat_0 mult_zero_left simp_thms)
  then have "fontFit mt [] ?maxW ?maxH (startFont ?maxH)
      = (startFont ?maxH, [], lineHeightOf (startFont ?maxH))"
    by (simp add: fontFit_stop wrapLines_Nil)
  with assms show ?thesis by (simp add: renderRegion_def Let_def)
qed

lemma toDraw_length: "length (toDraw rs tr) = length rs"
  by (simp add: toDraw_def)

lemma toDraw_nth:
  "i < length rs \<Longrightarrow>
     toDraw rs tr ! i
       = \<lparr>rtext = rtext (rs ! i), box = box (rs ! i),
          translated = (if i < length tr then tr ! i else [])\<rparr>"
  by (simp add: toDraw_def)

text \<open>
  C9. The payload has one entry per region, in the order of the regions, with the
  region's text and polygon; the strings sent for translation are the texts of the same
  sorted list the payload is built from; entry i carries translated[i] where it exists,
  and the empty string where the translated list is too short, and then the rendering
  of that entry erases its rectangle and draws nothing.
\<close>

theorem toDraw_pairing:
  "length (toDraw rs tr) = length rs
   \<and> map rtext (toDraw rs tr) = map rtext rs
   \<and> map box (toDraw rs tr) = map box rs
   \<and> (\<forall>i < length rs. i < length tr \<longrightarrow> translated (toDraw rs tr ! i) = tr ! i)
   \<and> (\<forall>i < length rs. length tr \<le> i \<longrightarrow>
         translated (toDraw rs tr ! i) = []
         \<and> renderRegion mt imgW imgH (toDraw rs tr ! i)
             = [FillRect (rx (rectOf imgW imgH (box (rs ! i)))) (ry (rectOf imgW imgH (box (rs ! i))))
                  (rw (rectOf imgW imgH (box (rs ! i)))) (rh (rectOf imgW imgH (box (rs ! i))))])
   \<and> drawPayload anno translateBatch
       = toDraw (sortRegions (buildRegions anno))
           (translateBatch (map rtext (sortRegions (buildRegions anno))))
   \<and> map rtext (drawPayload anno translateBatch) = map rtext (sortRegions (buildRegions anno))"
proof (intro conjI allI impI)
  show "length (toDraw rs tr) = length rs" by (rule toDraw_length)
  show "map rtext (toDraw rs tr) = map rtext rs"
    by (rule nth_equalityI) (simp_all add: toDraw_length toDraw_nth)
  show "map box (toDraw rs tr) = map box rs"
    by (rule nth_equalityI) (simp_all add: toDraw_length toDraw_nth)
  show "drawPayload anno translateBatch
       = toDraw (sortRegions (buildRegions anno))
           (translateBatch (map rtext (sortRegions (buildRegions anno))))"
    by (simp add: drawPayload_def Let_def)
  show "map rtext (drawPayload anno translateBatch) = map rtext (sortRegions (buildRegions anno))"
    unfolding drawPayload_def Let_def
    by (rule nth_equalityI) (simp_all add: toDraw_length toDraw_nth)
next
  fix i assume "i < length rs" "i < length tr"
  then show "translated (toDraw rs tr ! i) = tr ! i" by (simp add: toDraw_nth)
next
  fix i assume i: "i < length rs" "length tr \<le> i"
  then show e: "translated (toDraw rs tr ! i) = []" by (simp add: toDraw_nth)
  have "box (toDraw rs tr ! i) = box (rs ! i)" using i by (simp add: toDraw_nth)
  with renderRegion_blank [OF e, of mt imgW imgH]
  show "renderRegion mt imgW imgH (toDraw rs tr ! i)
             = [FillRect (rx (rectOf imgW imgH (box (rs ! i)))) (ry (rectOf imgW imgH (box (rs ! i))))
                  (rw (rectOf imgW imgH (box (rs ! i)))) (rh (rectOf imgW imgH (box (rs ! i))))]"
    by simp
qed

theorem toDraw_pairing_witness:
  "map translated (toDraw [stair_a, stair_b, stair_c] [''uno'', ''dos'']) = [''uno'', ''dos'', []]
   \<and> renderRegion charWidth 200 200 (toDraw [stair_a, stair_b, stair_c] [''uno'', ''dos''] ! 2)
       = [FillRect 0 10 40 4]"
proof -
  have a: "map translated (toDraw [stair_a, stair_b, stair_c] [''uno'', ''dos'']) = [''uno'', ''dos'', []]"
    by code_simp
  have b: "rectOf 200 200 (box ([stair_a, stair_b, stair_c] ! 2)) = \<lparr>rx = 0, ry = 10, rw = 40, rh = 4\<rparr>"
    by code_simp
  have "renderRegion charWidth 200 200 (toDraw [stair_a, stair_b, stair_c] [''uno'', ''dos''] ! 2)
     = [FillRect (rx (rectOf 200 200 (box ([stair_a, stair_b, stair_c] ! 2))))
          (ry (rectOf 200 200 (box ([stair_a, stair_b, stair_c] ! 2))))
          (rw (rectOf 200 200 (box ([stair_a, stair_b, stair_c] ! 2))))
          (rh (rectOf 200 200 (box ([stair_a, stair_b, stair_c] ! 2))))]"
    using toDraw_pairing [of "[stair_a, stair_b, stair_c]" "[''uno'', ''dos'']" charWidth 200 200]
    by simp
  with a b show ?thesis by simp
qed

end
